theory Spec2Isabelle
  imports Complex_Main "HOL-Library.AList" "HOL-Library.Multiset"
begin

section \<open>Strings\<close>

text \<open>
  JavaScript strings are modelled as \<open>string\<close>. The program only inspects ASCII
  suffixes (\<open>.ply\<close>, \<open>.webp\<close>), so \<open>toLowerCase\<close> is the ASCII lower-casing: no
  non-ASCII character lower-cases to one of the letters tested.
\<close>

definition lower_char :: "char \<Rightarrow> char" where
  "lower_char c =
     (case map_of (zip ''ABCDEFGHIJKLMNOPQRSTUVWXYZ'' ''abcdefghijklmnopqrstuvwxyz'') c of
        Some l \<Rightarrow> l
      | None \<Rightarrow> c)"

definition toLowerCase :: "string \<Rightarrow> string" where
  "toLowerCase s = map lower_char s"

definition endsWith :: "string \<Rightarrow> string \<Rightarrow> bool" where
  "endsWith s suffix =
     (length suffix \<le> length s \<and> drop (length s - length suffix) s = suffix)"

text \<open>
  \<open>name.replace(/\.webp$/i, repl)\<close>: the pattern is anchored at the end of the
  string and ignores case, so at most the last five characters are replaced.
\<close>

definition replace_webp_ext :: "string \<Rightarrow> string \<Rightarrow> string" where
  "replace_webp_ext repl s =
     (if endsWith (toLowerCase s) ''.webp'' then take (length s - 5) s @ repl else s)"

text \<open>\<open>String(n)\<close> of a non-negative integer: its decimal digits.\<close>

definition digit_char :: "nat \<Rightarrow> char" where
  "digit_char d = ''0123456789'' ! d"

fun decimal :: "nat \<Rightarrow> string" where
  "decimal n = (if n < 10 then [digit_char n] else decimal (n div 10) @ [digit_char (n mod 10)])"

definition padStart :: "nat \<Rightarrow> char \<Rightarrow> string \<Rightarrow> string" where
  "padStart width c s = replicate (width - length s) c @ s"

text \<open>\<open>haystack.includes(needle)\<close>.\<close>

definition str_includes :: "string \<Rightarrow> string \<Rightarrow> bool" where
  "str_includes haystack needle =
     list_ex (\<lambda>i. take (length needle) (drop i haystack) = needle) [0..<Suc (length haystack)]"

section \<open>Errors\<close>

datatype js_error = TypeError string | SyntaxError string | Error string | SystemError string

fun message :: "js_error \<Rightarrow> string" where
  "message (TypeError m) = m"
| "message (SyntaxError m) = m"
| "message (Error m) = m"
| "message (SystemError m) = m"

section \<open>JSON values and the metadata rewrite\<close>

text \<open>
  A JavaScript number is a finite value, negative zero, an infinity or \<open>NaN\<close>.
  \<open>Finite 0\<close> is the positive zero. \<open>JSON.parse\<close> returns an infinity for a literal
  too large for a double, such as \<open>1e309\<close>, and negative zero for \<open>-0\<close>.
\<close>

datatype number = Finite real | NegZero | PosInfinity | NegInfinity | NaN

text \<open>
  The value \<open>JSON.parse\<close> returns. An object is an association list in property
  order; \<open>JSON.parse\<close> never yields two properties of one name. A JavaScript value that
  may be \<open>undefined\<close> is a \<open>json option\<close>.
\<close>

datatype json =
    JNull
  | JBool bool
  | JNum number
  | JStr string
  | JArr "json list"
  | JObj "(string \<times> json) list"

fun truthyNumber :: "number \<Rightarrow> bool" where
  "truthyNumber (Finite x) = (x \<noteq> 0)"
| "truthyNumber NegZero = False"
| "truthyNumber NaN = False"
| "truthyNumber n = True"

fun truthy :: "json option \<Rightarrow> bool" where
  "truthy None = False"
| "truthy (Some JNull) = False"
| "truthy (Some (JBool b)) = b"
| "truthy (Some (JNum n)) = truthyNumber n"
| "truthy (Some (JStr s)) = (s \<noteq> [])"
| "truthy (Some (JArr xs)) = True"
| "truthy (Some (JObj kvs)) = True"

text \<open>
  Property read \<open>v[k]\<close> for the names the program reads (the five targets and
  \<open>files\<close>): reading from \<open>null\<close> or \<open>undefined\<close> throws, an object yields its own
  property, and a primitive or an array has no property of these names.
\<close>

fun getProp :: "json option \<Rightarrow> string \<Rightarrow> js_error + json option" where
  "getProp None k = Inl (TypeError ''Cannot read properties of undefined'')"
| "getProp (Some JNull) k = Inl (TypeError ''Cannot read properties of null'')"
| "getProp (Some (JObj kvs)) k = Inr (map_of kvs k)"
| "getProp (Some v) k = Inr None"

fun isArray :: "json option \<Rightarrow> bool" where
  "isArray (Some (JArr xs)) = True"
| "isArray v = False"

fun elements :: "json option \<Rightarrow> json list" where
  "elements (Some (JArr xs)) = xs"
| "elements v = []"

text \<open>
  \<open>fileName.replace(...)\<close> exists on strings only; on \<open>null\<close> already the read of
  \<open>replace\<close> throws.
\<close>

fun renameFile :: "json \<Rightarrow> js_error + json" where
  "renameFile (JStr s) = Inr (JStr (replace_webp_ext ''.webm'' s))"
| "renameFile JNull = Inl (TypeError ''Cannot read properties of null'')"
| "renameFile v = Inl (TypeError ''fileName.replace is not a function'')"

text \<open>\<open>Array.prototype.map\<close> with a callback that may throw: the first throw ends it.\<close>

fun mapE :: "('a \<Rightarrow> js_error + 'b) \<Rightarrow> 'a list \<Rightarrow> js_error + 'b list" where
  "mapE f [] = Inr []"
| "mapE f (x # xs) =
     (case f x of
        Inl e \<Rightarrow> Inl e
      | Inr y \<Rightarrow> (case mapE f xs of Inl e \<Rightarrow> Inl e | Inr ys \<Rightarrow> Inr (y # ys)))"

text \<open>Assignment \<open>o[k] = v\<close> to an object: an existing property keeps its place.\<close>

fun setProp :: "string \<Rightarrow> json \<Rightarrow> json \<Rightarrow> json" where
  "setProp k v (JObj kvs) = JObj (AList.update k v kvs)"
| "setProp k v other = other"

text \<open>\<open>cloned[key].files = v\<close>.\<close>

fun setFiles :: "string \<Rightarrow> json \<Rightarrow> json \<Rightarrow> json" where
  "setFiles key v (JObj kvs) =
     (case map_of kvs key of
        Some ob \<Rightarrow> JObj (AList.update key (setProp ''files'' v ob) kvs)
      | None \<Rightarrow> JObj kvs)"
| "setFiles key v other = other"

definition targets :: "string list" where
  "targets = [''means'', ''scales'', ''quats'', ''sh0'', ''shN'']"

text \<open>One iteration of the loop over \<open>targets\<close> in \<open>mapMetaToWebm\<close>.\<close>

definition rewriteTarget :: "string \<Rightarrow> json \<Rightarrow> js_error + json" where
  "rewriteTarget key cloned =
     (case getProp (Some cloned) key of
        Inl e \<Rightarrow> Inl e
      | Inr v \<Rightarrow>
          if \<not> truthy v then Inr cloned
          else (case getProp v ''files'' of
                  Inl e \<Rightarrow> Inl e
                | Inr f \<Rightarrow>
                    if \<not> isArray f then Inr cloned
                    else (case mapE renameFile (elements f) of
                            Inl e \<Rightarrow> Inl e
                          | Inr fs \<Rightarrow> Inr (setFiles key (JArr fs) cloned))))"

fun forTargets :: "string list \<Rightarrow> json \<Rightarrow> js_error + json" where
  "forTargets [] cloned = Inr cloned"
| "forTargets (key # keys) cloned =
     (case rewriteTarget key cloned of
        Inl e \<Rightarrow> Inl e
      | Inr cloned' \<Rightarrow> forTargets keys cloned')"

text \<open>
  \<open>JSON.parse(JSON.stringify(meta))\<close>. \<open>JSON.stringify\<close> writes \<open>null\<close> for a number
  that is not finite and \<open>0\<close> for negative zero, so that is what \<open>JSON.parse\<close> reads
  back; a finite number is written with the digits that identify it and comes back as
  it was, and so do strings, booleans, \<open>null\<close> and the order of the properties.
\<close>

fun jsonNumber :: "number \<Rightarrow> json" where
  "jsonNumber (Finite x) = JNum (Finite x)"
| "jsonNumber NegZero = JNum (Finite 0)"
| "jsonNumber n = JNull"

primrec deepClone :: "json \<Rightarrow> json" where
  "deepClone JNull = JNull"
| "deepClone (JBool b) = JBool b"
| "deepClone (JNum n) = jsonNumber n"
| "deepClone (JStr x) = JStr x"
| "deepClone (JArr xs) = JArr (map deepClone xs)"
| "deepClone (JObj kvs) = JObj (map (map_prod id deepClone) kvs)"

definition mapMetaToWebm :: "json \<Rightarrow> js_error + json" where
  "mapMetaToWebm meta = forTargets targets (deepClone meta)"

text \<open>
  The rewrite as the specification words it: under a recognised key, an object with a
  \<open>files\<close> array gets every name ending in \<open>.webp\<close> renamed; everything else stays.
\<close>

definition spec_rename :: "json \<Rightarrow> json" where
  "spec_rename v = (case v of JStr s \<Rightarrow> JStr (replace_webp_ext ''.webm'' s) | _ \<Rightarrow> v)"

definition spec_attribute :: "json \<Rightarrow> json" where
  "spec_attribute v =
     (case v of
        JObj ob \<Rightarrow>
          (case map_of ob ''files'' of
             Some (JArr fs) \<Rightarrow>
               JObj (map (\<lambda>(k, x). (k, if k = ''files'' then JArr (map spec_rename fs) else x)) ob)
           | _ \<Rightarrow> v)
      | _ \<Rightarrow> v)"

definition spec_meta :: "(string \<times> json) list \<Rightarrow> json" where
  "spec_meta kvs =
     JObj (map (\<lambda>(k, v). (k, if k \<in> set targets then spec_attribute v else v)) kvs)"

fun is_string :: "json \<Rightarrow> bool" where
  "is_string (JStr s) = True"
| "is_string v = False"

text \<open>Every number in the value is finite, and none is negative zero.\<close>

fun is_finite :: "number \<Rightarrow> bool" where
  "is_finite (Finite x) = True"
| "is_finite n = False"

fun finite_numbers :: "json \<Rightarrow> bool" where
  "finite_numbers (JNum n) = is_finite n"
| "finite_numbers (JArr xs) = list_all finite_numbers xs"
| "finite_numbers (JObj kvs) = list_all (\<lambda>(k, v). finite_numbers v) kvs"
| "finite_numbers v = True"

text \<open>The file lists a recognised key holds contain strings only.\<close>

definition files_are_names :: "json \<Rightarrow> bool" where
  "files_are_names v =
     (case v of
        JObj ob \<Rightarrow> (case map_of ob ''files'' of Some (JArr fs) \<Rightarrow> list_all is_string fs | _ \<Rightarrow> True)
      | _ \<Rightarrow> True)"

definition well_formed_meta :: "(string \<times> json) list \<Rightarrow> bool" where
  "well_formed_meta kvs =
     (distinct (map fst kvs) \<and>
      list_all (\<lambda>(k, v). k \<in> set targets \<longrightarrow>
        files_are_names v \<and> (case v of JObj ob \<Rightarrow> distinct (map fst ob) | _ \<Rightarrow> True)) kvs)"

section \<open>Metadata objects in a store\<close>

text \<open>
  A JavaScript object is a reference: two variables may hold the same object, and an
  assignment to a property is seen through both. To say that \<open>mapMetaToWebm\<close> leaves
  its argument alone, values are therefore placed in a store: a list of cells, an address
  being a position in it. A value is a primitive or the address of an object or an array.
\<close>

datatype jsval = VNull | VBool bool | VNum number | VStr string | VRef nat

datatype cell = ObjectCell "(string \<times> jsval) list" | ArrayCell "jsval list"

type_synonym store = "cell list"

text \<open>
  The value held at an address, as \<open>JSON.stringify\<close> walks it. The fuel bounds the depth
  of the walk by the number of cells, which every store without a cycle respects; on a
  cycle the walk runs out of fuel, and \<open>JSON.stringify\<close> throws. An address outside the
  store, which no JavaScript heap has, ends the walk in the same way.
\<close>

fun readJson :: "nat \<Rightarrow> store \<Rightarrow> jsval \<Rightarrow> json option" where
  "readJson n s VNull = Some JNull"
| "readJson n s (VBool b) = Some (JBool b)"
| "readJson n s (VNum x) = Some (JNum x)"
| "readJson n s (VStr x) = Some (JStr x)"
| "readJson 0 s (VRef a) = None"
| "readJson (Suc n) s (VRef a) =
     (if a < length s
      then (case s ! a of
              ObjectCell kvs \<Rightarrow>
                map_option JObj
                  (those (map (\<lambda>(k, v). map_option (Pair k) (readJson n s v)) kvs))
            | ArrayCell vs \<Rightarrow> map_option JArr (those (map (readJson n s) vs)))
      else None)"

text \<open>
  \<open>JSON.parse\<close> builds the value it reads out of cells that did not exist before: the
  parts first, then the object or array holding them, at the end of the store.
\<close>

fun alloc :: "json \<Rightarrow> store \<Rightarrow> jsval \<times> store"
  and allocAll :: "json list \<Rightarrow> store \<Rightarrow> jsval list \<times> store"
  and allocFields :: "(string \<times> json) list \<Rightarrow> store \<Rightarrow> (string \<times> jsval) list \<times> store" where
  "alloc JNull s = (VNull, s)"
| "alloc (JBool b) s = (VBool b, s)"
| "alloc (JNum x) s = (VNum x, s)"
| "alloc (JStr x) s = (VStr x, s)"
| "alloc (JArr xs) s = (case allocAll xs s of (vs, s1) \<Rightarrow> (VRef (length s1), s1 @ [ArrayCell vs]))"
| "alloc (JObj kvs) s = (case allocFields kvs s of (fs, s1) \<Rightarrow> (VRef (length s1), s1 @ [ObjectCell fs]))"
| "allocAll [] s = ([], s)"
| "allocAll (x # xs) s =
     (case alloc x s of (v, s1) \<Rightarrow> (case allocAll xs s1 of (vs, s2) \<Rightarrow> (v # vs, s2)))"
| "allocFields [] s = ([], s)"
| "allocFields ((k, x) # kvs) s =
     (case alloc x s of (v, s1) \<Rightarrow> (case allocFields kvs s1 of (fs, s2) \<Rightarrow> ((k, v) # fs, s2)))"

text \<open>The operations of \<open>mapMetaToWebm\<close> on values in a store.\<close>

fun truthyV :: "jsval option \<Rightarrow> bool" where
  "truthyV None = False"
| "truthyV (Some VNull) = False"
| "truthyV (Some (VBool b)) = b"
| "truthyV (Some (VNum n)) = truthyNumber n"
| "truthyV (Some (VStr x)) = (x \<noteq> [])"
| "truthyV (Some (VRef a)) = True"

definition cellAt :: "store \<Rightarrow> nat \<Rightarrow> cell option" where
  "cellAt s a = (if a < length s then Some (s ! a) else None)"

fun getPropV :: "store \<Rightarrow> jsval option \<Rightarrow> string \<Rightarrow> js_error + jsval option" where
  "getPropV s None k = Inl (TypeError ''Cannot read properties of undefined'')"
| "getPropV s (Some VNull) k = Inl (TypeError ''Cannot read properties of null'')"
| "getPropV s (Some (VRef a)) k =
     (case cellAt s a of Some (ObjectCell kvs) \<Rightarrow> Inr (map_of kvs k) | _ \<Rightarrow> Inr None)"
| "getPropV s (Some v) k = Inr None"

fun isArrayV :: "store \<Rightarrow> jsval option \<Rightarrow> bool" where
  "isArrayV s (Some (VRef a)) = (case cellAt s a of Some (ArrayCell vs) \<Rightarrow> True | _ \<Rightarrow> False)"
| "isArrayV s v = False"

fun elementsV :: "store \<Rightarrow> jsval option \<Rightarrow> jsval list" where
  "elementsV s (Some (VRef a)) = (case cellAt s a of Some (ArrayCell vs) \<Rightarrow> vs | _ \<Rightarrow> [])"
| "elementsV s v = []"

fun renameFileV :: "jsval \<Rightarrow> js_error + jsval" where
  "renameFileV (VStr x) = Inr (VStr (replace_webp_ext ''.webm'' x))"
| "renameFileV VNull = Inl (TypeError ''Cannot read properties of null'')"
| "renameFileV v = Inl (TypeError ''fileName.replace is not a function'')"

text \<open>
  \<open>target.files = x\<close> writes into the object \<open>target\<close> refers to, in place. The loop
  reaches it only when \<open>target.files\<close> is an array, hence \<open>target\<close> an object.
\<close>

fun setFilesV :: "jsval option \<Rightarrow> jsval \<Rightarrow> store \<Rightarrow> store" where
  "setFilesV (Some (VRef a)) x s =
     (case cellAt s a of
        Some (ObjectCell kvs) \<Rightarrow> s[a := ObjectCell (AList.update ''files'' x kvs)]
      | _ \<Rightarrow> s)"
| "setFilesV v x s = s"

text \<open>
  One iteration of the loop: \<open>files.map(...)\<close> makes a new array, at the end of the
  store, and the assignment stores its address in the object under \<open>cloned[key]\<close>.
\<close>

definition rewriteTargetStore :: "string \<Rightarrow> jsval \<Rightarrow> store \<Rightarrow> (js_error + unit) \<times> store" where
  "rewriteTargetStore key cloned s =
     (case getPropV s (Some cloned) key of
        Inl e \<Rightarrow> (Inl e, s)
      | Inr v \<Rightarrow>
          if \<not> truthyV v then (Inr (), s)
          else (case getPropV s v ''files'' of
                  Inl e \<Rightarrow> (Inl e, s)
                | Inr f \<Rightarrow>
                    if \<not> isArrayV s f then (Inr (), s)
                    else (case mapE renameFileV (elementsV s f) of
                            Inl e \<Rightarrow> (Inl e, s)
                          | Inr fs \<Rightarrow>
                              (Inr (), setFilesV v (VRef (length s)) (s @ [ArrayCell fs])))))"

fun forTargetsStore :: "string list \<Rightarrow> jsval \<Rightarrow> store \<Rightarrow> (js_error + unit) \<times> store" where
  "forTargetsStore [] cloned s = (Inr (), s)"
| "forTargetsStore (key # keys) cloned s =
     (case rewriteTargetStore key cloned s of
        (Inl e, s1) \<Rightarrow> (Inl e, s1)
      | (Inr u, s1) \<Rightarrow> forTargetsStore keys cloned s1)"

text \<open>
  \<open>mapMetaToWebm(meta)\<close> on the store: \<open>JSON.stringify\<close> walks the argument,
  \<open>JSON.parse\<close> builds what \<open>deepClone\<close> makes of the value walked, and the loop works
  on that. The result is the address of the copy, and the store is returned as the call
  leaves it.
\<close>

definition mapMetaToWebmStore :: "jsval \<Rightarrow> store \<Rightarrow> (js_error + jsval) \<times> store" where
  "mapMetaToWebmStore v s =
     (case readJson (length s) s v of
        None \<Rightarrow> (Inl (TypeError ''Converting circular structure to JSON''), s)
      | Some j \<Rightarrow>
          (case alloc (deepClone j) s of
             (cloned, s1) \<Rightarrow>
               (case forTargetsStore targets cloned s1 of
                  (Inl e, s2) \<Rightarrow> (Inl e, s2)
                | (Inr u, s2) \<Rightarrow> (Inr cloned, s2))))"

text \<open>
  The addresses a value and a cell hold, and the stores whose cells from address \<open>n\<close> on
  refer to no cell below \<open>n\<close>.
\<close>

fun refsOf :: "jsval \<Rightarrow> nat set" where
  "refsOf (VRef a) = {a}"
| "refsOf v = {}"

fun cellRefs :: "cell \<Rightarrow> nat set" where
  "cellRefs (ObjectCell kvs) = (\<Union>v \<in> snd ` set kvs. refsOf v)"
| "cellRefs (ArrayCell vs) = (\<Union>v \<in> set vs. refsOf v)"

definition freshFrom :: "nat \<Rightarrow> store \<Rightarrow> bool" where
  "freshFrom n s = (\<forall>a \<in> {n..<length s}. \<forall>r \<in> cellRefs (s ! a). n \<le> r)"

text \<open>
  A value in a store is a tree for a JSON value when reading it gives that value and no
  cell is reached twice: \<open>treeAt s v j F\<close> says so, \<open>F\<close> being the set of the cells
  reached. What \<open>JSON.parse\<close> builds is a tree, and the loop of \<open>mapMetaToWebm\<close> keeps
  it one.
\<close>

inductive treeAt :: "store \<Rightarrow> jsval \<Rightarrow> json \<Rightarrow> nat set \<Rightarrow> bool"
  and treesAt :: "store \<Rightarrow> jsval list \<Rightarrow> json list \<Rightarrow> nat set \<Rightarrow> bool"
  and fieldsAt :: "store \<Rightarrow> (string \<times> jsval) list \<Rightarrow> (string \<times> json) list \<Rightarrow> nat set \<Rightarrow> bool"
  for s :: store where
  tree_null: "treeAt s VNull JNull {}"
| tree_bool: "treeAt s (VBool b) (JBool b) {}"
| tree_num: "treeAt s (VNum x) (JNum x) {}"
| tree_str: "treeAt s (VStr x) (JStr x) {}"
| tree_arr: "a < length s \<Longrightarrow> s ! a = ArrayCell vs \<Longrightarrow> treesAt s vs xs F \<Longrightarrow> a \<notin> F \<Longrightarrow>
     treeAt s (VRef a) (JArr xs) (insert a F)"
| tree_obj: "a < length s \<Longrightarrow> s ! a = ObjectCell fs \<Longrightarrow> fieldsAt s fs kvs F \<Longrightarrow> a \<notin> F \<Longrightarrow>
     treeAt s (VRef a) (JObj kvs) (insert a F)"
| trees_nil: "treesAt s [] [] {}"
| trees_cons: "treeAt s v j F \<Longrightarrow> treesAt s vs js G \<Longrightarrow> F \<inter> G = {} \<Longrightarrow>
     treesAt s (v # vs) (j # js) (F \<union> G)"
| fields_nil: "fieldsAt s [] [] {}"
| fields_cons: "treeAt s v j F \<Longrightarrow> fieldsAt s fs kvs G \<Longrightarrow> F \<inter> G = {} \<Longrightarrow>
     fieldsAt s ((k, v) # fs) ((k, j) # kvs) (F \<union> G)"

section \<open>Paths and the file system\<close>

text \<open>
  A path is the list of its segments below the root: the program only builds paths with
  \<open>path.resolve\<close> and with \<open>path.join(dir, name)\<close> for a single segment \<open>name\<close>, which
  is \<open>dir @ [name]\<close>. \<open>pathString\<close> is the string a path stands for.
\<close>

type_synonym path = "string list"

definition pathString :: "path \<Rightarrow> string" where
  "pathString p = (if p = [] then ''/'' else concat (map (\<lambda>c. CHR ''/'' # c) p))"

text \<open>\<open>path.extname\<close> and \<open>path.basename(p, path.extname(p))\<close> on the last segment.\<close>

definition extname :: "string \<Rightarrow> string" where
  "extname name =
     (let startDot = length name - length (takeWhile (\<lambda>c. c \<noteq> CHR ''.'') (rev name)) - 1
      in if CHR ''.'' \<notin> set name \<or> startDot = 0 \<or> name = ''..'' then []
         else drop startDot name)"

definition basename :: "path \<Rightarrow> string" where
  "basename p = (if p = [] then [] else last p)"

definition basenameNoExt :: "path \<Rightarrow> string" where
  "basenameNoExt p = take (length (basename p) - length (extname (basename p))) (basename p)"

text \<open>
  The file system is a tree. A directory lists its entries in the order \<open>readdir\<close>
  returns them; \<open>Special\<close> is an entry that is neither a regular file nor a directory.
\<close>

datatype node = File string | Dir "(string \<times> node) list" | Special

fun isFile :: "node \<Rightarrow> bool" where
  "isFile (File c) = True"
| "isFile n = False"

fun isDirectory :: "node \<Rightarrow> bool" where
  "isDirectory (Dir es) = True"
| "isDirectory n = False"

fun lookup :: "path \<Rightarrow> node \<Rightarrow> node option" where
  "lookup [] n = Some n"
| "lookup (c # p) (Dir es) = (case map_of es c of None \<Rightarrow> None | Some m \<Rightarrow> lookup p m)"
| "lookup (c # p) n = None"

text \<open>Put a node at a path whose parent directory exists.\<close>

fun putNode :: "path \<Rightarrow> node \<Rightarrow> node \<Rightarrow> node option" where
  "putNode [] n t = Some n"
| "putNode [c] n (Dir es) = Some (Dir (AList.update c n es))"
| "putNode (c # p) n (Dir es) =
     (case map_of es c of
        None \<Rightarrow> None
      | Some m \<Rightarrow> (case putNode p n m of
                    None \<Rightarrow> None
                  | Some m' \<Rightarrow> Some (Dir (AList.update c m' es))))"
| "putNode (c # p) n t = None"

text \<open>\<open>fs.mkdir(dir, {recursive: true})\<close>.\<close>

fun mkdirp :: "path \<Rightarrow> node \<Rightarrow> js_error + node" where
  "mkdirp [] (Dir es) = Inr (Dir es)"
| "mkdirp [] n = Inl (SystemError ''EEXIST'')"
| "mkdirp (c # p) (Dir es) =
     (case map_of es c of
        None \<Rightarrow> (case mkdirp p (Dir []) of
                   Inl e \<Rightarrow> Inl e
                 | Inr m \<Rightarrow> Inr (Dir (AList.update c m es)))
      | Some m \<Rightarrow> (case mkdirp p m of
                     Inl e \<Rightarrow> Inl e
                   | Inr m' \<Rightarrow> Inr (Dir (AList.update c m' es))))"
| "mkdirp (c # p) n = Inl (SystemError ''ENOTDIR'')"

text \<open>\<open>fs.rm(dir, {recursive: true, force: true})\<close>.\<close>

fun removeNode :: "path \<Rightarrow> node \<Rightarrow> node" where
  "removeNode [] n = n"
| "removeNode [c] (Dir es) = Dir (AList.delete c es)"
| "removeNode (c # p) (Dir es) =
     (case map_of es c of
        None \<Rightarrow> Dir es
      | Some m \<Rightarrow> Dir (AList.update c (removeNode p m) es))"
| "removeNode (c # p) n = n"

section \<open>The world the program runs in\<close>

text \<open>
  What the program does to the outside: the file system, and a trace of what it printed,
  copied and started, in order.
\<close>

record ffmpeg_job =
  jobPattern :: path
  jobOutput :: path
  jobFps :: real
  jobCrf :: real
  jobGop :: real

datatype event =
    Warn string
  | Log string
  | ConsoleError string
  | Spawned string "string list"
  | FfmpegRun ffmpeg_job
  | FrameCopied string path path

record world =
  fsys :: node
  trace :: "event list"

datatype spawn_outcome = SpawnError js_error | Closed "nat option"

text \<open>
  The collaborators outside the repository: the collation \<open>localeCompare\<close> uses, the
  \<open>JSON\<close> codec, the search path, and the external programs. A program started with
  \<open>spawn\<close> ends with an outcome and leaves a file system behind; so does an \<open>ffmpeg\<close> run,
  which ends with an error or without one.
\<close>

record host =
  localeCompare :: "string \<Rightarrow> string \<Rightarrow> int"
  jsonParse :: "string \<Rightarrow> js_error + json"
  jsonStringify :: "json \<Rightarrow> string"
  envPath :: "path list"
  spawnProcess :: "string \<Rightarrow> string list \<Rightarrow> node \<Rightarrow> spawn_outcome \<times> node"
  ffmpegProcess :: "ffmpeg_job \<Rightarrow> node \<Rightarrow> js_error option \<times> node"

text \<open>An asynchronous step: it ends in an error or a value, and changes the world.\<close>

type_synonym 'a io = "world \<Rightarrow> (js_error + 'a) \<times> world"

definition returnIO :: "'a \<Rightarrow> 'a io" where
  "returnIO x w = (Inr x, w)"

definition throwIO :: "js_error \<Rightarrow> 'a io" where
  "throwIO e w = (Inl e, w)"

definition bindIO :: "'a io \<Rightarrow> ('a \<Rightarrow> 'b io) \<Rightarrow> 'b io" where
  "bindIO m f w = (case m w of (Inl e, w') \<Rightarrow> (Inl e, w') | (Inr x, w') \<Rightarrow> f x w')"

text \<open>A \<open>for ... of\<close> loop whose body awaits and may throw.\<close>

fun forIO :: "'a list \<Rightarrow> ('a \<Rightarrow> unit io) \<Rightarrow> unit io" where
  "forIO [] f = returnIO ()"
| "forIO (x # xs) f = bindIO (f x) (\<lambda>_. forIO xs f)"

text \<open>The same loop threading the variables the body assigns.\<close>

fun foldIO :: "('s \<Rightarrow> 'a \<Rightarrow> 's io) \<Rightarrow> 'a list \<Rightarrow> 's \<Rightarrow> 's io" where
  "foldIO f [] s = returnIO s"
| "foldIO f (x # xs) s = bindIO (f s x) (foldIO f xs)"

definition emit :: "event \<Rightarrow> unit io" where
  "emit ev w = (Inr (), w\<lparr>trace := trace w @ [ev]\<rparr>)"

section \<open>File system calls\<close>

definition pathExists :: "path \<Rightarrow> node \<Rightarrow> bool" where
  "pathExists p t = (lookup p t \<noteq> None)"

definition pathExistsIO :: "path \<Rightarrow> bool io" where
  "pathExistsIO p w = (Inr (pathExists p (fsys w)), w)"

definition ensureDir :: "path \<Rightarrow> unit io" where
  "ensureDir dir w =
     (case mkdirp dir (fsys w) of
        Inl e \<Rightarrow> (Inl e, w)
      | Inr t \<Rightarrow> (Inr (), w\<lparr>fsys := t\<rparr>))"

definition removeDir :: "path \<Rightarrow> unit io" where
  "removeDir dir w = (Inr (), w\<lparr>fsys := removeNode dir (fsys w)\<rparr>)"

text \<open>\<open>fs.readdir(dir, {withFileTypes: true})\<close>: the entries with their kinds.\<close>

definition readdir :: "path \<Rightarrow> (string \<times> node) list io" where
  "readdir dir w =
     (case lookup dir (fsys w) of
        Some (Dir es) \<Rightarrow> (Inr es, w)
      | Some n \<Rightarrow> (Inl (SystemError ''ENOTDIR''), w)
      | None \<Rightarrow> (Inl (SystemError ''ENOENT''), w))"

definition readFile :: "path \<Rightarrow> string io" where
  "readFile p w =
     (case lookup p (fsys w) of
        Some (File c) \<Rightarrow> (Inr c, w)
      | Some (Dir es) \<Rightarrow> (Inl (SystemError ''EISDIR''), w)
      | Some Special \<Rightarrow> (Inl (SystemError ''EINVAL''), w)
      | None \<Rightarrow> (Inl (SystemError ''ENOENT''), w))"

definition writeFile :: "path \<Rightarrow> string \<Rightarrow> unit io" where
  "writeFile p c w =
     (case lookup p (fsys w) of
        Some (Dir es) \<Rightarrow> (Inl (SystemError ''EISDIR''), w)
      | other \<Rightarrow>
          (case putNode p (File c) (fsys w) of
             None \<Rightarrow> (Inl (SystemError ''ENOENT''), w)
           | Some t \<Rightarrow> (Inr (), w\<lparr>fsys := t\<rparr>)))"

definition copyFile :: "path \<Rightarrow> path \<Rightarrow> unit io" where
  "copyFile src dst = bindIO (readFile src) (\<lambda>c. writeFile dst c)"

section \<open>Sorting\<close>

text \<open>
  \<open>xs.sort((a, b) => a.localeCompare(b))\<close>: \<open>Array.prototype.sort\<close> is stable, and
  with a consistent comparator its result is the stable sorted arrangement, which
  insertion from the right computes.
\<close>

fun insertSorted :: "('a \<Rightarrow> 'a \<Rightarrow> int) \<Rightarrow> 'a \<Rightarrow> 'a list \<Rightarrow> 'a list" where
  "insertSorted cmp x [] = [x]"
| "insertSorted cmp x (y # ys) =
     (if cmp x y \<le> 0 then x # y # ys else y # insertSorted cmp x ys)"

definition sortBy :: "('a \<Rightarrow> 'a \<Rightarrow> int) \<Rightarrow> 'a list \<Rightarrow> 'a list" where
  "sortBy cmp xs = foldr (insertSorted cmp) xs []"

section \<open>Listing directories\<close>

definition listPlyFiles :: "host \<Rightarrow> path \<Rightarrow> path list io" where
  "listPlyFiles h inputDir =
     bindIO (readdir inputDir) (\<lambda>entries.
       returnIO
         (sortBy (\<lambda>a b. localeCompare h (pathString a) (pathString b))
            (map (\<lambda>entry. inputDir @ [fst entry])
               (filter (\<lambda>entry. isFile (snd entry) \<and> endsWith (toLowerCase (fst entry)) ''.ply'')
                  entries))))"

definition listSequenceDirs :: "path \<Rightarrow> string list io" where
  "listSequenceDirs sequenceRoot =
     bindIO (readdir sequenceRoot) (\<lambda>entries.
       returnIO (map fst (filter (\<lambda>entry. isDirectory (snd entry)) entries)))"

definition listSogDirs :: "path \<Rightarrow> string list io" where
  "listSogDirs sogRoot =
     bindIO (readdir sogRoot) (\<lambda>entries.
       returnIO (map fst (filter (\<lambda>entry. isDirectory (snd entry)) entries)))"

definition listSequenceFrames :: "host \<Rightarrow> path \<Rightarrow> string list io" where
  "listSequenceFrames h sequenceDir =
     bindIO (readdir sequenceDir) (\<lambda>entries.
       returnIO
         (sortBy (localeCompare h)
            (map fst
               (filter (\<lambda>entry. isFile (snd entry) \<and> endsWith (toLowerCase (fst entry)) ''.webp'')
                  entries))))"

text \<open>\<open>walkForWebp\<close>: the recursion follows the directory tree it reads.\<close>

fun walkNode :: "path \<Rightarrow> node \<Rightarrow> path list" where
  "walkNode dir (Dir es) =
     concat (map (\<lambda>(name, n).
        case n of
          Dir sub \<Rightarrow> walkNode (dir @ [name]) n
        | File c \<Rightarrow> if endsWith (toLowerCase name) ''.webp'' then [dir @ [name]] else []
        | Special \<Rightarrow> []) es)"
| "walkNode dir n = []"

definition walkForWebp :: "path \<Rightarrow> path list io" where
  "walkForWebp dir w =
     (case lookup dir (fsys w) of
        Some (Dir es) \<Rightarrow> (Inr (walkNode dir (Dir es)), w)
      | Some n \<Rightarrow> (Inl (SystemError ''ENOTDIR''), w)
      | None \<Rightarrow> (Inl (SystemError ''ENOENT''), w))"

text \<open>\<open>findExecutable\<close>: the first directory of the search path that holds the name.\<close>

definition findExecutable :: "host \<Rightarrow> string \<Rightarrow> node \<Rightarrow> path option" where
  "findExecutable h name t =
     find (\<lambda>candidate. pathExists candidate t) (map (\<lambda>part. part @ [name]) (envPath h))"

section \<open>Choosing an output directory\<close>

text \<open>\<open>`${baseDir}_${suffix}`\<close>: the suffix goes on the last segment.\<close>

definition withSuffix :: "path \<Rightarrow> nat \<Rightarrow> path" where
  "withSuffix baseDir suffix =
     (if baseDir = [] then [''_'' @ decimal suffix]
      else butlast baseDir @ [last baseDir @ ''_'' @ decimal suffix])"

lemma digit_char_inj: "a < 10 \<Longrightarrow> b < 10 \<Longrightarrow> digit_char a = digit_char b \<Longrightarrow> a = b"
proof -
  assume a: "a < 10" and b: "b < 10" and e: "digit_char a = digit_char b"
  have d: "distinct ''0123456789''" by simp
  have "a < length ''0123456789''" "b < length ''0123456789''" using a b by simp_all
  then show "a = b" using e d unfolding digit_char_def
    by (metis nth_eq_iff_index_eq)
qed

lemma decimal_length: "0 < length (decimal n)"
  by (induction n rule: decimal.induct) (subst decimal.simps, simp)

lemma decimal_inj: "decimal a = decimal b \<Longrightarrow> a = b"
proof (induction a arbitrary: b rule: decimal.induct)
  case (1 n)
  show ?case
  proof (cases "n < 10")
    case True
    then have dn: "decimal n = [digit_char n]" by (subst decimal.simps) simp
    have "b < 10"
    proof (rule ccontr)
      assume "\<not> b < 10"
      then have "decimal b = decimal (b div 10) @ [digit_char (b mod 10)]"
        by (subst decimal.simps) simp
      then have "length (decimal b) = Suc (length (decimal (b div 10)))" by simp
      then show False using "1.prems" dn decimal_length[of "b div 10"] by simp
    qed
    then have "decimal b = [digit_char b]" by (subst decimal.simps) simp
    then show ?thesis using "1.prems" dn True \<open>b < 10\<close> digit_char_inj by simp
  next
    case False
    then have dn: "decimal n = decimal (n div 10) @ [digit_char (n mod 10)]"
      by (subst decimal.simps) simp
    have nb: "\<not> b < 10"
    proof
      assume "b < 10"
      then have "decimal b = [digit_char b]" by (subst decimal.simps) simp
      then have "length (decimal n) = 1" using "1.prems" by simp
      then show False using dn decimal_length[of "n div 10"] by simp
    qed
    then have db: "decimal b = decimal (b div 10) @ [digit_char (b mod 10)]"
      by (subst decimal.simps) simp
    have eq: "decimal (n div 10) = decimal (b div 10)" "digit_char (n mod 10) = digit_char (b mod 10)"
      using "1.prems" dn db by simp_all
    have "n div 10 = b div 10" using "1.IH"[OF False eq(1)] .
    moreover have "n mod 10 = b mod 10" using eq(2) digit_char_inj[of "n mod 10" "b mod 10"] by simp
    ultimately show ?thesis by (metis div_mult_mod_eq)
  qed
qed


lemma lookup_snoc:
  "lookup (p @ [c]) t \<noteq> None \<Longrightarrow> \<exists>es. lookup p t = Some (Dir es) \<and> c \<in> fst ` set es"
proof (induction p arbitrary: t)
  case Nil
  then obtain es where t: "t = Dir es" by (cases t) auto
  then obtain m where "map_of es c = Some m" using Nil by (auto split: option.splits)
  then have "(c, m) \<in> set es" by (rule map_of_SomeD)
  then have "c \<in> fst ` set es" by force
  then show ?case using t by simp
next
  case (Cons a p)
  then obtain es where t: "t = Dir es" by (cases t) auto
  then obtain m where m: "map_of es a = Some m" using Cons.prems by (auto split: option.splits)
  then have "lookup (p @ [c]) m \<noteq> None" using Cons.prems t by simp
  then show ?case using Cons.IH[of m] t m by simp
qed

lemma suffixed_finite: "finite {k. pathExists (withSuffix base k) t}"
proof -
  define parent where "parent = (if base = [] then [] else butlast base)"
  define nm where "nm = (\<lambda>k. (if base = [] then [] else last base) @ ''_'' @ decimal k)"
  have ws: "\<And>k. withSuffix base k = parent @ [nm k]"
    by (simp add: withSuffix_def parent_def nm_def)
  have inj: "inj nm" by (rule injI) (simp add: nm_def decimal_inj)
  show ?thesis
  proof (cases "lookup parent t")
    case None
    have "\<And>k. \<not> pathExists (withSuffix base k) t"
    proof
      fix k assume "pathExists (withSuffix base k) t"
      then have "lookup (parent @ [nm k]) t \<noteq> None" by (simp add: pathExists_def ws)
      from lookup_snoc[OF this] show False using None by simp
    qed
    then show ?thesis by simp
  next
    case (Some n)
    show ?thesis
    proof (cases n)
      case (Dir es)
      have "{k. pathExists (withSuffix base k) t} \<subseteq> nm -` (fst ` set es)"
      proof
        fix k assume "k \<in> {k. pathExists (withSuffix base k) t}"
        then have "lookup (parent @ [nm k]) t \<noteq> None" by (simp add: pathExists_def ws)
        from lookup_snoc[OF this] show "k \<in> nm -` (fst ` set es)" using Some Dir by simp
      qed
      moreover have "finite (nm -` (fst ` set es))"
        by (intro finite_vimageI inj) simp
      ultimately show ?thesis by (rule finite_subset)
    next
      case (File c)
      have "\<And>k. \<not> pathExists (withSuffix base k) t"
      proof
        fix k assume "pathExists (withSuffix base k) t"
        then have "lookup (parent @ [nm k]) t \<noteq> None" by (simp add: pathExists_def ws)
        from lookup_snoc[OF this] show False using Some File by simp
      qed
      then show ?thesis by simp
    next
      case Special
      have "\<And>k. \<not> pathExists (withSuffix base k) t"
      proof
        fix k assume "pathExists (withSuffix base k) t"
        then have "lookup (parent @ [nm k]) t \<noteq> None" by (simp add: pathExists_def ws)
        from lookup_snoc[OF this] show False using Some Special by simp
      qed
      then show ?thesis by simp
    qed
  qed
qed

text \<open>
  The loop of \<open>uniqueDir\<close>, with its two variables. It ends because a directory has
  finitely many entries and the candidates are pairwise different.
\<close>

function uniqueDirFrom :: "node \<Rightarrow> path \<Rightarrow> path \<Rightarrow> nat \<Rightarrow> path" where
  "uniqueDirFrom t baseDir candidate suffix =
     (if pathExists candidate t
      then uniqueDirFrom t baseDir (withSuffix baseDir suffix) (suffix + 1)
      else candidate)"
  by pat_completeness auto
termination
proof (relation "measure (\<lambda>(t, baseDir, candidate, suffix).
    (if pathExists candidate t then 1 else 0) +
    card {k. suffix \<le> k \<and> pathExists (withSuffix baseDir k) t})")
  show "wf (measure (\<lambda>(t, baseDir, candidate, suffix).
    (if pathExists candidate t then 1 else 0) +
    card {k. suffix \<le> k \<and> pathExists (withSuffix baseDir k) t}))" by simp
next
  fix t :: node and baseDir candidate :: path and suffix :: nat
  assume ex: "pathExists candidate t"
  let ?A = "{k. suffix \<le> k \<and> pathExists (withSuffix baseDir k) t}"
  let ?B = "{k. suffix + 1 \<le> k \<and> pathExists (withSuffix baseDir k) t}"
  have fin: "finite ?A" using suffixed_finite[of baseDir t] by simp
  have "(if pathExists (withSuffix baseDir suffix) t then 1 else 0) + card ?B = card ?A"
  proof (cases "pathExists (withSuffix baseDir suffix) t")
    case True
    have "?A = insert suffix ?B" using True by (auto simp: le_Suc_eq)
    moreover have "suffix \<notin> ?B" by simp
    moreover have "finite ?B" using suffixed_finite[of baseDir t] by simp
    ultimately show ?thesis using True by simp
  next
    case False
    have "?A = ?B" using False by (auto simp: le_Suc_eq) (metis le_antisym not_less_eq_eq)
    then show ?thesis using False by simp
  qed
  then show "((t, baseDir, withSuffix baseDir suffix, suffix + 1), (t, baseDir, candidate, suffix))
      \<in> measure (\<lambda>(t, baseDir, candidate, suffix).
          (if pathExists candidate t then 1 else 0) +
          card {k. suffix \<le> k \<and> pathExists (withSuffix baseDir k) t})"
    using ex by simp
qed

declare uniqueDirFrom.simps [simp del]

definition uniqueDir :: "path \<Rightarrow> path io" where
  "uniqueDir baseDir w = (Inr (uniqueDirFrom (fsys w) baseDir baseDir 1), w)"

section \<open>Running the converter\<close>

fun exitCodeString :: "nat option \<Rightarrow> string" where
  "exitCodeString None = ''null''"
| "exitCodeString (Some n) = decimal n"

text \<open>
  A child process started with \<open>spawn\<close>: the promise rejects with the \<open>error\<close> event's
  error, resolves on exit code 0 and rejects with a new \<open>Error\<close> on any other.
\<close>

definition spawnAndWait :: "host \<Rightarrow> string \<Rightarrow> string \<Rightarrow> string list \<Rightarrow> unit io" where
  "spawnAndWait h failure exec args w =
     (case spawnProcess h exec args (fsys w) of
        (outcome, t) \<Rightarrow>
          (case outcome of
             SpawnError e \<Rightarrow> Inl e
           | Closed code \<Rightarrow>
               if code = Some 0 then Inr ()
               else Inl (Error (failure @ exitCodeString code)),
           w\<lparr>fsys := t, trace := trace w @ [Spawned exec args]\<rparr>))"

definition runSplatTransform :: "host \<Rightarrow> string \<Rightarrow> string list \<Rightarrow> path \<Rightarrow> path \<Rightarrow> unit io" where
  "runSplatTransform h execPath args inputPath outputPath =
     spawnAndWait h ''splat-transform failed with exit code '' execPath
       (args @ [pathString inputPath, pathString outputPath])"

record options =
  optInput :: "path option"
  optOutput :: path
  splatExec :: string
  splatArgs :: "string list"
  webpWidth :: "nat option"
  webpHeight :: "nat option"
  optCrf :: real
  optGop :: real
  optFps :: real
  overwrite :: bool
  videosOnly :: bool

record processed =
  plyPath :: path
  plyName :: string
  sogDir :: path

text \<open>One iteration of the conversion loop of \<open>main\<close>, and the loop.\<close>

definition convertOne ::
  "host \<Rightarrow> string \<Rightarrow> string list \<Rightarrow> path \<Rightarrow> processed list \<Rightarrow> path \<Rightarrow> processed list io" where
  "convertOne h exec args sogRoot sofar ply =
     (let baseName = basenameNoExt ply;
          desiredDir = sogRoot @ [baseName]
      in bindIO (uniqueDir desiredDir) (\<lambda>outputSogDir.
         bindIO (ensureDir outputSogDir) (\<lambda>_.
         let outputMetaPath = outputSogDir @ [''meta.json'']
         in bindIO (runSplatTransform h exec args ply outputMetaPath) (\<lambda>_.
            returnIO (sofar @ [\<lparr>plyPath = ply, plyName = basename ply, sogDir = outputSogDir\<rparr>])))))"

definition convertAll ::
  "host \<Rightarrow> string \<Rightarrow> string list \<Rightarrow> path \<Rightarrow> path list \<Rightarrow> processed list io" where
  "convertAll h exec args sogRoot plyFiles = foldIO (convertOne h exec args sogRoot) plyFiles []"

section \<open>Building the sequences\<close>

text \<open>The two maps of \<open>main\<close>, in insertion order.\<close>

record builder =
  frameCounters :: "(string \<times> nat) list"
  splatFrames :: "(string \<times> nat) list"

definition frameName :: "nat \<Rightarrow> string" where
  "frameName i = ''frame_'' @ padStart 5 (CHR ''0'') (decimal i) @ ''.webp''"

definition mismatchMessage :: "string \<Rightarrow> nat \<Rightarrow> nat \<Rightarrow> string" where
  "mismatchMessage name saw expected =
     ''Frame index mismatch for '' @ name @ '': saw '' @ decimal saw @
     '', expected '' @ decimal expected"

text \<open>
  The body of the loop over the images of one object. The trace keeps every finished
  \<open>fs.copyFile\<close> with the name of the object whose iteration made it.
\<close>

definition placeFrame :: "path \<Rightarrow> processed \<Rightarrow> builder \<Rightarrow> path \<Rightarrow> builder io" where
  "placeFrame sequenceRoot item b webpPath =
     (let sequenceName = basenameNoExt webpPath;
          sequenceDir = sequenceRoot @ [sequenceName]
      in bindIO (ensureDir sequenceDir) (\<lambda>_.
         let currentIndex = (case map_of (frameCounters b) sequenceName of Some i \<Rightarrow> i | None \<Rightarrow> 0);
             counters = AList.update sequenceName (currentIndex + 1) (frameCounters b);
             targetPath = sequenceDir @ [frameName currentIndex]
         in bindIO (copyFile webpPath targetPath) (\<lambda>_.
            bindIO (emit (FrameCopied (plyName item) webpPath targetPath)) (\<lambda>_.
            case map_of (splatFrames b) (plyName item) of
              None \<Rightarrow>
                returnIO \<lparr>frameCounters = counters,
                          splatFrames = AList.update (plyName item) currentIndex (splatFrames b)\<rparr>
            | Some expected \<Rightarrow>
                if expected \<noteq> currentIndex
                then bindIO (emit (Warn (mismatchMessage (plyName item) currentIndex expected)))
                       (\<lambda>_. returnIO \<lparr>frameCounters = counters, splatFrames = splatFrames b\<rparr>)
                else returnIO \<lparr>frameCounters = counters, splatFrames = splatFrames b\<rparr>))))"

definition buildItem :: "path \<Rightarrow> builder \<Rightarrow> processed \<Rightarrow> builder io" where
  "buildItem sequenceRoot b item =
     bindIO (walkForWebp (sogDir item)) (\<lambda>webps. foldIO (placeFrame sequenceRoot item) webps b)"

definition buildSequences :: "path \<Rightarrow> processed list \<Rightarrow> builder io" where
  "buildSequences sequenceRoot items =
     foldIO (buildItem sequenceRoot) items \<lparr>frameCounters = [], splatFrames = []\<rparr>"

section \<open>Encoding\<close>

definition encodeWithFfmpeg :: "host \<Rightarrow> ffmpeg_job \<Rightarrow> unit io" where
  "encodeWithFfmpeg h job w =
     (case ffmpegProcess h job (fsys w) of
        (failure, t) \<Rightarrow>
          (case failure of None \<Rightarrow> Inr () | Some e \<Rightarrow> Inl e,
           w\<lparr>fsys := t, trace := trace w @ [FfmpegRun job]\<rparr>))"

definition convertSequenceToPng :: "host \<Rightarrow> path \<Rightarrow> path \<Rightarrow> path \<Rightarrow> unit io" where
  "convertSequenceToPng h sequenceDir pngDir dwebpPath =
     bindIO (ensureDir pngDir) (\<lambda>_.
     bindIO (listSequenceFrames h sequenceDir) (\<lambda>frameFiles.
     forIO frameFiles (\<lambda>fileName.
       let srcPath = sequenceDir @ [fileName];
           targetPath = pngDir @ [replace_webp_ext ''.png'' fileName]
       in spawnAndWait h ''dwebp failed with exit code '' (pathString dwebpPath)
            [pathString srcPath, ''-o'', pathString targetPath])))"

definition fallbackWarning :: "path \<Rightarrow> string" where
  "fallbackWarning sequenceDir =
     ''ffmpeg could not decode WebP in '' @ pathString sequenceDir @
     ''; falling back to dwebp + PNG.''"

text \<open>
  \<open>encodeSequenceToWebm\<close>: the \<open>try\<close> returns when the first encode succeeds; the
  \<open>catch\<close> rethrows its error when \<open>dwebpPath\<close> is \<open>null\<close> and otherwise lets the
  function go on to the fallback.
\<close>

definition encodeSequenceToWebm ::
  "host \<Rightarrow> path \<Rightarrow> path \<Rightarrow> real \<Rightarrow> real \<Rightarrow> real \<Rightarrow> path option \<Rightarrow> unit io" where
  "encodeSequenceToWebm h sequenceDir videoPath rate quality keyint dwebpPath w =
     (let webpPattern = sequenceDir @ [''frame_%05d.webp'']
      in case encodeWithFfmpeg h
                \<lparr>jobPattern = webpPattern, jobOutput = videoPath,
                 jobFps = rate, jobCrf = quality, jobGop = keyint\<rparr> w of
           (Inr u, w1) \<Rightarrow> (Inr (), w1)
         | (Inl error, w1) \<Rightarrow>
             (case dwebpPath of
                None \<Rightarrow> (Inl error, w1)
              | Some dwebp \<Rightarrow>
                  bindIO (emit (Warn (fallbackWarning sequenceDir))) (\<lambda>_.
                  let pngDir = sequenceDir @ [''_png'']
                  in bindIO (convertSequenceToPng h sequenceDir pngDir dwebp) (\<lambda>_.
                     let pngPattern = pngDir @ [''frame_%05d.png'']
                     in encodeWithFfmpeg h
                          \<lparr>jobPattern = pngPattern, jobOutput = videoPath,
                           jobFps = rate, jobCrf = quality, jobGop = keyint\<rparr>)) w1))"

text \<open>The body of the encode loop of \<open>main\<close>, and the loop.\<close>

definition encodeOne :: "host \<Rightarrow> options \<Rightarrow> path \<Rightarrow> path \<Rightarrow> path option \<Rightarrow> string \<Rightarrow> unit io" where
  "encodeOne h opts sequenceRoot videoRoot dwebpPath sequenceName =
     (let sequenceDir = sequenceRoot @ [sequenceName]
      in bindIO (listSequenceFrames h sequenceDir) (\<lambda>frameFiles.
         if length frameFiles = 0 then returnIO ()
         else
           let videoPath = videoRoot @ [sequenceName @ ''.webm'']
           in encodeSequenceToWebm h sequenceDir videoPath
                (optFps opts) (optCrf opts) (optGop opts) dwebpPath))"

definition encodeAll :: "host \<Rightarrow> options \<Rightarrow> path \<Rightarrow> path \<Rightarrow> path option \<Rightarrow> unit io" where
  "encodeAll h opts sequenceRoot videoRoot dwebpPath =
     bindIO (listSequenceDirs sequenceRoot) (\<lambda>names.
       forIO (sortBy (localeCompare h) names)
         (encodeOne h opts sequenceRoot videoRoot dwebpPath))"

section \<open>The manifest\<close>

record splat =
  splatOriginal :: string
  splatFrame :: "nat option"
  splatMeta :: json

definition splatJson :: "splat \<Rightarrow> json" where
  "splatJson s =
     JObj [(''original'', JStr (splatOriginal s)),
           (''frame'', case splatFrame s of None \<Rightarrow> JNull | Some i \<Rightarrow> JNum (Finite (real i))),
           (''meta'', splatMeta s)]"

definition manifestJson :: "splat list \<Rightarrow> json" where
  "manifestJson splats = JObj [(''splats'', JArr (map splatJson splats))]"

definition writeManifest :: "host \<Rightarrow> path \<Rightarrow> splat list \<Rightarrow> unit io" where
  "writeManifest h videoRoot splats =
     writeFile (videoRoot @ [''manifest.json'']) (jsonStringify h (manifestJson splats))"

text \<open>\<open>mapMetaToWebm(JSON.parse(metaRaw))\<close>.\<close>

definition rewrittenMeta :: "host \<Rightarrow> string \<Rightarrow> json io" where
  "rewrittenMeta h metaRaw =
     (case jsonParse h metaRaw of
        Inl e \<Rightarrow> throwIO e
      | Inr parsed \<Rightarrow> (case mapMetaToWebm parsed of Inl e \<Rightarrow> throwIO e | Inr m \<Rightarrow> returnIO m))"

text \<open>The manifest of a fresh conversion: one entry per processed object.\<close>

definition freshSplat :: "host \<Rightarrow> (string \<times> nat) list \<Rightarrow> splat list \<Rightarrow> processed \<Rightarrow> splat list io" where
  "freshSplat h frames splats item =
     (let metaPath = sogDir item @ [''meta.json'']
      in bindIO (readFile metaPath) (\<lambda>metaRaw.
         let frameIndex = map_of frames (plyName item)
         in bindIO (rewrittenMeta h metaRaw) (\<lambda>m.
            returnIO (splats @
              [\<lparr>splatOriginal = plyName item, splatFrame = frameIndex, splatMeta = m\<rparr>]))))"

definition freshSplats :: "host \<Rightarrow> processed list \<Rightarrow> (string \<times> nat) list \<Rightarrow> splat list io" where
  "freshSplats h items frames = foldIO (freshSplat h frames) items []"

text \<open>
  The manifest of \<open>--videos-only\<close>: the loop \<open>for (index = 0; index < sogDirs.length;
  index += 1)\<close> over the directory names still to visit.
\<close>

fun rebuildFrom :: "host \<Rightarrow> path \<Rightarrow> nat \<Rightarrow> string list \<Rightarrow> splat list \<Rightarrow> splat list io" where
  "rebuildFrom h sogRoot index [] splats = returnIO splats"
| "rebuildFrom h sogRoot index (dirName # rest) splats =
     (let metaPath = sogRoot @ [dirName, ''meta.json'']
      in bindIO (pathExistsIO metaPath) (\<lambda>found.
         if \<not> found then rebuildFrom h sogRoot (index + 1) rest splats
         else bindIO (readFile metaPath) (\<lambda>metaRaw.
              bindIO (rewrittenMeta h metaRaw) (\<lambda>m.
              rebuildFrom h sogRoot (index + 1) rest
                (splats @ [\<lparr>splatOriginal = dirName @ ''.ply'', splatFrame = Some index,
                            splatMeta = m\<rparr>])))))"

definition rebuildSplats :: "host \<Rightarrow> path \<Rightarrow> splat list io" where
  "rebuildSplats h sogRoot =
     bindIO (pathExistsIO sogRoot) (\<lambda>found.
       if found
       then bindIO (listSogDirs sogRoot) (\<lambda>names.
              rebuildFrom h sogRoot 0 (sortBy (localeCompare h) names) [])
       else returnIO [])"

section \<open>The program\<close>

definition checkInput :: "options \<Rightarrow> unit io" where
  "checkInput opts =
     (if \<not> videosOnly opts
      then (case optInput opts of
              None \<Rightarrow> throwIO (Error ''Input directory is required unless --videos-only is set'')
            | Some inputDir \<Rightarrow>
                bindIO (pathExistsIO inputDir) (\<lambda>found.
                  if \<not> found
                  then throwIO (Error (''Input directory not found: '' @ pathString inputDir))
                  else returnIO ()))
      else returnIO ())"

definition prepareOutput :: "options \<Rightarrow> path list \<Rightarrow> unit io" where
  "prepareOutput opts dirs =
     (if \<not> videosOnly opts \<and> \<not> overwrite opts
      then forIO dirs (\<lambda>dir.
             bindIO (pathExistsIO dir) (\<lambda>found.
               if found
               then throwIO (Error (''Output subfolder already exists: '' @ pathString dir @
                                    '' (use --overwrite to allow)''))
               else returnIO ()))
      else if \<not> videosOnly opts
      then forIO dirs (\<lambda>dir.
             bindIO (pathExistsIO dir) (\<lambda>found. if found then removeDir dir else returnIO ()))
      else returnIO ())"

definition converterArgs :: "options \<Rightarrow> string list" where
  "converterArgs opts =
     splatArgs opts @
     (case webpWidth opts of None \<Rightarrow> [] | Some n \<Rightarrow> [''--webp-width'', decimal n]) @
     (case webpHeight opts of None \<Rightarrow> [] | Some n \<Rightarrow> [''--webp-height'', decimal n])"

definition convertInputs :: "host \<Rightarrow> options \<Rightarrow> path \<Rightarrow> processed list io" where
  "convertInputs h opts sogRoot =
     (case optInput opts of
        None \<Rightarrow> throwIO (TypeError ''The path argument must be of type string'')
      | Some inputDir \<Rightarrow>
          bindIO (listPlyFiles h inputDir) (\<lambda>plyFiles.
            if length plyFiles = 0
            then throwIO (Error (''No .ply files found in '' @ pathString inputDir))
            else convertAll h (splatExec opts) (converterArgs opts) sogRoot plyFiles))"

text \<open>
  \<open>main\<close>, in the order of its statements: the checks and the three output folders
  (\<open>setUp\<close>), then conversion, sequence building, encoding and the manifest.
\<close>

definition sogRootOf :: "options \<Rightarrow> path" where
  "sogRootOf opts = optOutput opts @ [''sog'']"

definition sequenceRootOf :: "options \<Rightarrow> path" where
  "sequenceRootOf opts = optOutput opts @ [''sequences'']"

definition videoRootOf :: "options \<Rightarrow> path" where
  "videoRootOf opts = optOutput opts @ [''videos'']"

definition setUp :: "options \<Rightarrow> unit io" where
  "setUp opts =
     bindIO (checkInput opts) (\<lambda>_.
     bindIO (ensureDir (optOutput opts)) (\<lambda>_.
     bindIO (prepareOutput opts [sogRootOf opts, sequenceRootOf opts, videoRootOf opts]) (\<lambda>_.
     bindIO (ensureDir (sogRootOf opts)) (\<lambda>_.
     bindIO (ensureDir (sequenceRootOf opts)) (\<lambda>_.
     ensureDir (videoRootOf opts))))))"

definition writeFreshManifest :: "host \<Rightarrow> options \<Rightarrow> processed list \<Rightarrow> builder \<Rightarrow> unit io" where
  "writeFreshManifest h opts items b =
     bindIO (freshSplats h items (splatFrames b)) (\<lambda>splats.
     bindIO (writeManifest h (videoRootOf opts) splats) (\<lambda>_.
     bindIO (emit (Log (''Processed '' @ decimal (length items) @ '' .ply files.''))) (\<lambda>_.
     emit (Log (''Sequences written to '' @ pathString (sequenceRootOf opts))))))"

definition writeRebuiltManifest :: "host \<Rightarrow> options \<Rightarrow> unit io" where
  "writeRebuiltManifest h opts =
     bindIO (rebuildSplats h (sogRootOf opts)) (\<lambda>splats.
     writeManifest h (videoRootOf opts) splats)"

definition main :: "host \<Rightarrow> options \<Rightarrow> unit io" where
  "main h opts =
     bindIO (setUp opts) (\<lambda>_ w.
       (let dwebpPath = findExecutable h ''dwebp'' (fsys w)
        in bindIO (if \<not> videosOnly opts then convertInputs h opts (sogRootOf opts)
                   else returnIO []) (\<lambda>items.
           bindIO (if \<not> videosOnly opts then buildSequences (sequenceRootOf opts) items
                   else returnIO \<lparr>frameCounters = [], splatFrames = []\<rparr>) (\<lambda>b.
           bindIO (encodeAll h opts (sequenceRootOf opts) (videoRootOf opts) dwebpPath) (\<lambda>_.
           bindIO (if \<not> videosOnly opts then writeFreshManifest h opts items b
                   else writeRebuiltManifest h opts) (\<lambda>_.
           emit (Log (''Videos written to '' @ pathString (videoRootOf opts)))))))) w)"

text \<open>\<open>main().catch(...)\<close>: the message goes to \<open>console.error\<close> and the exit code is 1.\<close>

definition run :: "host \<Rightarrow> options \<Rightarrow> world \<Rightarrow> nat \<times> world" where
  "run h opts w =
     (case main h opts w of
        (Inr u, w') \<Rightarrow> (0, w')
      | (Inl e, w') \<Rightarrow> (1, w'\<lparr>trace := trace w' @ [ConsoleError (message e)]\<rparr>))"

section \<open>Predicates of the statements\<close>

text \<open>The entries \<open>listSequenceFrames\<close> keeps.\<close>

definition isFrame :: "string \<times> node \<Rightarrow> bool" where
  "isFrame entry = (isFile (snd entry) \<and> endsWith (toLowerCase (fst entry)) ''.webp'')"

text \<open>
  A host whose child processes leave the file system as it was, or change it at or
  below the one path \<open>q\<close>.
\<close>

definition confinedTo :: "host \<Rightarrow> path \<Rightarrow> bool" where
  "confinedTo h q =
     (\<forall>exec args t. snd (spawnProcess h exec args t) = t \<or>
        (\<exists>n. putNode q n t = Some (snd (spawnProcess h exec args t))))"

text \<open>The directory holds the frames that \<open>entries\<close> holds.\<close>

definition sameFrames :: "path \<Rightarrow> (string \<times> node) list \<Rightarrow> world \<Rightarrow> bool" where
  "sameFrames sequenceDir entries w =
     (\<exists>es. lookup sequenceDir (fsys w) = Some (Dir es) \<and> filter isFrame es = filter isFrame entries)"

text \<open>The first encode \<open>encodeSequenceToWebm\<close> asks for, and trace extension.\<close>

definition primaryJob :: "path \<Rightarrow> path \<Rightarrow> real \<Rightarrow> real \<Rightarrow> real \<Rightarrow> ffmpeg_job" where
  "primaryJob sequenceDir videoPath rate quality keyint =
     \<lparr>jobPattern = sequenceDir @ [''frame_%05d.webp''], jobOutput = videoPath,
      jobFps = rate, jobCrf = quality, jobGop = keyint\<rparr>"

definition extends :: "world \<Rightarrow> world \<Rightarrow> bool" where
  "extends w w' = (\<exists>rest. trace w' = trace w @ rest)"

text \<open>Some error the run printed contains the given text.\<close>

definition errorMentions :: "world \<Rightarrow> string \<Rightarrow> bool" where
  "errorMentions w text =
     list_ex (\<lambda>ev. case ev of ConsoleError msg \<Rightarrow> str_includes msg text | _ \<Rightarrow> False) (trace w)"

text \<open>The index a frame of the named sequence gets next, and the warnings of a step.\<close>

definition currentIndexOf :: "builder \<Rightarrow> string \<Rightarrow> nat" where
  "currentIndexOf b sequenceName =
     (case map_of (frameCounters b) sequenceName of Some i \<Rightarrow> i | None \<Rightarrow> 0)"

definition targetOf :: "path \<Rightarrow> builder \<Rightarrow> path \<Rightarrow> path" where
  "targetOf sequenceRoot b webpPath =
     sequenceRoot @ [basenameNoExt webpPath,
                     frameName (currentIndexOf b (basenameNoExt webpPath))]"

section \<open>A host and a world to run the model on\<close>

text \<open>
  A comparator is consistent when it orders any two strings and is transitive, as a
  collation is. \<open>compareCodeUnits\<close> is one: the order of the code units.
\<close>

definition consistentComparator :: "('a \<Rightarrow> 'a \<Rightarrow> int) \<Rightarrow> bool" where
  "consistentComparator cmp =
     ((\<forall>a b. cmp a b \<le> 0 \<or> cmp b a \<le> 0) \<and>
      (\<forall>a b c. cmp a b \<le> 0 \<longrightarrow> cmp b c \<le> 0 \<longrightarrow> cmp a c \<le> 0))"

fun compareCodeUnits :: "string \<Rightarrow> string \<Rightarrow> int" where
  "compareCodeUnits [] [] = 0"
| "compareCodeUnits [] (y # ys) = - 1"
| "compareCodeUnits (x # xs) [] = 1"
| "compareCodeUnits (x # xs) (y # ys) =
     (if (of_char x :: nat) < of_char y then - 1
      else if (of_char y :: nat) < of_char x then 1
      else compareCodeUnits xs ys)"

definition exampleParse :: "string \<Rightarrow> js_error + json" where
  "exampleParse s =
     (if s = ''{}'' then Inr (JObj [])
      else if s = ''{means}'' then Inr (JObj [(''means'', JObj [(''files'', JArr [JStr ''means_l.webp''])])])
      else Inl (SyntaxError ''Unexpected token''))"

definition exampleHost ::
  "(string \<Rightarrow> string list \<Rightarrow> node \<Rightarrow> spawn_outcome \<times> node) \<Rightarrow>
   (ffmpeg_job \<Rightarrow> node \<Rightarrow> js_error option \<times> node) \<Rightarrow> host" where
  "exampleHost spawnf ffmpegf =
     \<lparr>localeCompare = compareCodeUnits, jsonParse = exampleParse, jsonStringify = (\<lambda>j. ''json''),
      envPath = [[''usr'', ''bin'']], spawnProcess = spawnf, ffmpegProcess = ffmpegf\<rparr>"

definition quietHost :: host where
  "quietHost = exampleHost (\<lambda>exec args t. (Closed (Some 0), t)) (\<lambda>job t. (None, t))"

definition catalogWorld :: world where
  "catalogWorld =
     \<lparr>fsys = Dir [(''in'', Dir [(''b.ply'', File ''b''), (''a.PLY'', File ''a''),
                                (''notes.txt'', File ''n''), (''c.ply'', Dir [])]),
                  (''out'', Dir [(''sog'', Dir [(''a'', Dir []), (''a_1'', Dir [])])])],
      trace = []\<rparr>"

text \<open>
  A host whose \<open>ffmpeg\<close> cannot decode WebP and whose \<open>dwebp\<close> leaves its output in
  the \<open>_png\<close> directory of the sequence below, and a world with that sequence.
\<close>

definition pngHost :: host where
  "pngHost =
     exampleHost
       (\<lambda>exec args t.
          (Closed (Some 0),
           case putNode [''seq'', ''means'', ''_png''] (Dir [(''frame_00000.png'', File ''png'')]) t of
             Some t' \<Rightarrow> t'
           | None \<Rightarrow> t))
       (\<lambda>job t. (Some (Error ''Invalid data found when processing input''), t))"

definition sequenceWorld :: world where
  "sequenceWorld =
     \<lparr>fsys = Dir [(''seq'', Dir [(''means'', Dir [(''frame_00001.WEBP'', File ''b''),
                                                  (''frame_00000.webp'', File ''a''),
                                                  (''notes.txt'', File ''n''),
                                                  (''x.webp'', Dir [])]),
                                 (''empty'', Dir [(''_png'', Dir [(''frame_00000.png'', File ''p'')]),
                                                  (''readme.txt'', File ''r'')])]),
                  (''videos'', Dir [])],
      trace = []\<rparr>"

definition exampleOptions :: options where
  "exampleOptions =
     \<lparr>optInput = Some [''in''], optOutput = [''out''], splatExec = ''splat-transform'',
      splatArgs = [], webpWidth = None, webpHeight = None, optCrf = 18, optGop = 30,
      optFps = 30, overwrite = False, videosOnly = False\<rparr>"

text \<open>
  A converter that exits with code 1, and a world with one input, \<open>bunny.ply\<close>.
\<close>

definition failingHost :: host where
  "failingHost = exampleHost (\<lambda>exec args t. (Closed (Some 1), t)) (\<lambda>job t. (None, t))"

definition bunnyWorld :: world where
  "bunnyWorld = \<lparr>fsys = Dir [(''in'', Dir [(''bunny.ply'', File ''ply'')])], trace = []\<rparr>"

text \<open>
  The rewritten metadata a file holds, when the file can be read, parsed and rewritten;
  and the manifest of \<open>--videos-only\<close> as a list comprehension: the directories that
  hold metadata, each with its position among all directories.
\<close>

definition rewrittenAt :: "host \<Rightarrow> node \<Rightarrow> path \<Rightarrow> json option" where
  "rewrittenAt h t p =
     (case lookup p t of
        Some (File c) \<Rightarrow>
          (case jsonParse h c of
             Inr parsed \<Rightarrow> (case mapMetaToWebm parsed of Inr m \<Rightarrow> Some m | Inl e \<Rightarrow> None)
           | Inl e \<Rightarrow> None)
      | _ \<Rightarrow> None)"

definition splatOfDir :: "host \<Rightarrow> node \<Rightarrow> path \<Rightarrow> nat \<times> string \<Rightarrow> splat option" where
  "splatOfDir h t sogRoot entry =
     map_option
       (\<lambda>m. \<lparr>splatOriginal = snd entry @ ''.ply'', splatFrame = Some (fst entry), splatMeta = m\<rparr>)
       (rewrittenAt h t (sogRoot @ [snd entry, ''meta.json'']))"

definition manifestOfDirs :: "host \<Rightarrow> node \<Rightarrow> path \<Rightarrow> string list \<Rightarrow> splat list" where
  "manifestOfDirs h t sogRoot names = List.map_filter (splatOfDir h t sogRoot) (List.enumerate 0 names)"

text \<open>Two object directories under \<open>sog\<close>: only the second holds metadata.\<close>

definition rebuildWorld :: world where
  "rebuildWorld =
     \<lparr>fsys = Dir [(''out'', Dir [(''sog'', Dir [(''objectB'', Dir [(''meta.json'', File ''{means}'')]),
                                                (''objectA'', Dir [(''means_l.webp'', File ''w'')])]),
                                 (''sequences'', Dir []), (''videos'', Dir [])])],
      trace = []\<rparr>"

text \<open>The same with metadata in both.\<close>

definition rebuildWorld2 :: world where
  "rebuildWorld2 =
     \<lparr>fsys = Dir [(''out'', Dir [(''sog'', Dir [(''objectB'', Dir [(''meta.json'', File ''{means}'')]),
                                                (''objectA'', Dir [(''meta.json'', File ''{}'')])]),
                                 (''sequences'', Dir []), (''videos'', Dir [])])],
      trace = []\<rparr>"

text \<open>
  Two paths diverge when they differ at a position both have: neither lies at or below
  the other.
\<close>

fun diverge :: "path \<Rightarrow> path \<Rightarrow> bool" where
  "diverge (a # p) (b # q) = (if a = b then diverge p q else True)"
| "diverge p q = False"

text \<open>A mismatch warning for the named object is among the events.\<close>

definition warnedFor :: "string \<Rightarrow> event list \<Rightarrow> bool" where
  "warnedFor name evs = (\<exists>saw expected. Warn (mismatchMessage name saw expected) \<in> set evs)"

text \<open>
  Every frame the events copied went to the file its sequence directory names by an
  index which is the one recorded for its object, unless a mismatch was reported for that
  object and index.
\<close>

definition framesRecorded :: "path \<Rightarrow> builder \<Rightarrow> event list \<Rightarrow> bool" where
  "framesRecorded sequenceRoot b evs =
     (\<forall>name src dst. FrameCopied name src dst \<in> set evs \<longrightarrow>
        (\<exists>i. dst = sequenceRoot @ [basenameNoExt src, frameName i] \<and>
             (map_of (splatFrames b) name = Some i \<or>
              (\<exists>expected. Warn (mismatchMessage name i expected) \<in> set evs))))"

text \<open>The sequence names the images of an object carry, in the order of the walk.\<close>

definition sequenceNamesOf :: "node \<Rightarrow> processed \<Rightarrow> string list option" where
  "sequenceNamesOf t item =
     (case lookup (sogDir item) t of
        Some (Dir es) \<Rightarrow> Some (map basenameNoExt (walkNode (sogDir item) (Dir es)))
      | _ \<Rightarrow> None)"

text \<open>
  Two converted objects, \<open>A.ply\<close> and \<open>B.ply\<close>, and three worlds after the conversion:
  in the first \<open>B\<close> has an attribute that \<open>A\<close> lacks, in the second both have the same
  two, in the third they share none.
\<close>

definition itemA :: processed where
  "itemA = \<lparr>plyPath = [''in'', ''A.ply''], plyName = ''A.ply'', sogDir = [''out'', ''sog'', ''A'']\<rparr>"

definition itemB :: processed where
  "itemB = \<lparr>plyPath = [''in'', ''B.ply''], plyName = ''B.ply'', sogDir = [''out'', ''sog'', ''B'']\<rparr>"

definition convertedWorld :: "(string \<times> node) list \<Rightarrow> (string \<times> node) list \<Rightarrow> world" where
  "convertedWorld filesA filesB =
     \<lparr>fsys = Dir [(''out'', Dir [(''sog'', Dir [(''A'', Dir ((''meta.json'', File ''{}'') # filesA)),
                                                (''B'', Dir ((''meta.json'', File ''{}'') # filesB))]),
                                 (''sequences'', Dir []), (''videos'', Dir [])])],
      trace = []\<rparr>"

definition mismatchWorld :: world where
  "mismatchWorld =
     convertedWorld [(''means.webp'', File ''a-means'')]
                    [(''means.webp'', File ''b-means''), (''shN.webp'', File ''b-shN'')]"

definition uniformWorld :: world where
  "uniformWorld =
     convertedWorld [(''means.webp'', File ''a-means''), (''shN.webp'', File ''a-shN'')]
                    [(''shN.webp'', File ''b-shN''), (''means.webp'', File ''b-means'')]"

definition disjointWorld :: world where
  "disjointWorld =
     convertedWorld [(''means.webp'', File ''a-means'')] [(''shN.webp'', File ''b-shN'')]"

text \<open>The builder after \<open>A\<close> and the first image of \<open>B\<close> in \<open>mismatchWorld\<close>.\<close>

definition builderAtMismatch :: builder where
  "builderAtMismatch =
     \<lparr>frameCounters = [(''means'', 2)], splatFrames = [(''A.ply'', 0), (''B.ply'', 1)]\<rparr>"

text \<open>A metadata object, and a store that holds it at address 6.\<close>

definition exampleMeta :: "(string \<times> json) list" where
  "exampleMeta =
     [(''means'', JObj [(''shape'', JNum (Finite 3)),
                        (''files'', JArr [JStr ''means_l.webp'', JStr ''means_u.WEBP''])]),
      (''extra'', JObj [(''files'', JArr [JStr ''keep.webp''])]),
      (''sh0'', JObj [(''files'', JArr [JStr ''sh0.png''])])]"

definition exampleHeap :: store where
  "exampleHeap =
     [ArrayCell [VStr ''means_l.webp'', VStr ''means_u.WEBP''],
      ObjectCell [(''shape'', VNum (Finite 3)), (''files'', VRef 0)],
      ArrayCell [VStr ''keep.webp''],
      ObjectCell [(''files'', VRef 2)],
      ArrayCell [VStr ''sh0.png''],
      ObjectCell [(''files'', VRef 4)],
      ObjectCell [(''means'', VRef 1), (''extra'', VRef 3), (''sh0'', VRef 5)]]"

section \<open>Verification: the metadata rewrite\<close>

lemma mapE_renameFile:
  "list_all is_string fs \<Longrightarrow> mapE renameFile fs = Inr (map spec_rename fs)"
proof (induction fs)
  case Nil
  then show ?case by simp
next
  case (Cons a fs)
  then show ?case by (cases a) (simp_all add: spec_rename_def)
qed

lemma update_as_map:
  "distinct (map fst kvs) \<Longrightarrow> map_of kvs k = Some v \<Longrightarrow>
   AList.update k w kvs = map (\<lambda>(k', x). (k', if k' = k then w else x)) kvs"
proof (induction kvs)
  case Nil
  then show ?case by simp
next
  case (Cons a kvs)
  obtain k' x where a: "a = (k', x)" by (cases a)
  show ?case
  proof (cases "k' = k")
    case True
    have "\<forall>p \<in> set kvs. fst p \<noteq> k" using Cons.prems(1) a True by auto
    then have "map (\<lambda>(k', x). (k', if k' = k then w else x)) kvs = kvs"
      by (induction kvs) auto
    then show ?thesis using a True by simp
  next
    case False
    then show ?thesis using Cons a by simp
  qed
qed

lemma isArray_iff: "isArray x \<longleftrightarrow> (\<exists>fs. x = Some (JArr fs))"
  by (cases x rule: isArray.cases) simp_all

lemma rewriteTarget_obj:
  assumes "distinct (map fst kvs)"
    and "\<And>v. map_of kvs key = Some v \<Longrightarrow>
           files_are_names v \<and> (case v of JObj ob \<Rightarrow> distinct (map fst ob) | _ \<Rightarrow> True)"
  shows "rewriteTarget key (JObj kvs) =
     Inr (JObj (map (\<lambda>(k, v). (k, if k = key then spec_attribute v else v)) kvs))"
proof (cases "map_of kvs key")
  case None
  then have "\<forall>p \<in> set kvs. fst p \<noteq> key" by (auto simp: map_of_eq_None_iff)
  then have "map (\<lambda>(k, v). (k, if k = key then spec_attribute v else v)) kvs = kvs"
    by (induction kvs) auto
  then show ?thesis using None by (simp add: rewriteTarget_def)
next
  case (Some v)
  note fa = assms(2)[OF Some]
  show ?thesis
  proof (cases "\<exists>ob fs. v = JObj ob \<and> map_of ob ''files'' = Some (JArr fs)")
    case True
    then obtain ob fs where v: "v = JObj ob" and f: "map_of ob ''files'' = Some (JArr fs)" by blast
    have strs: "list_all is_string fs" using fa v f by (simp add: files_are_names_def)
    have d: "distinct (map fst ob)" using fa v by simp
    have sa: "spec_attribute v = JObj (AList.update ''files'' (JArr (map spec_rename fs)) ob)"
      using v f update_as_map[OF d f] by (simp add: spec_attribute_def)
    have only: "\<And>x. (key, x) \<in> set kvs \<Longrightarrow> x = v"
      using assms(1) Some by (metis map_of_is_SomeI option.inject)
    have m: "map (\<lambda>(k', x). (k', if k' = key then spec_attribute v else x)) kvs =
          map (\<lambda>(k, x). (k, if k = key then spec_attribute x else x)) kvs"
      using only by (auto simp: map_eq_conv)
    have "rewriteTarget key (JObj kvs) = Inr (JObj (AList.update key (spec_attribute v) kvs))"
      using Some v f mapE_renameFile[OF strs] sa by (simp add: rewriteTarget_def)
    also have "AList.update key (spec_attribute v) kvs =
        map (\<lambda>(k', x). (k', if k' = key then spec_attribute v else x)) kvs"
      by (rule update_as_map[OF assms(1) Some])
    finally show ?thesis by (simp only: m)
  next
    case False
    then have sa: "spec_attribute v = v"
      by (auto simp: spec_attribute_def split: json.splits option.splits)
    have only: "\<And>x. (key, x) \<in> set kvs \<Longrightarrow> x = v"
      using assms(1) Some by (metis map_of_is_SomeI option.inject)
    have "\<forall>p \<in> set kvs. (\<lambda>(k, x). (k, if k = key then spec_attribute x else x)) p = p"
      using only sa by auto
    then have "map (\<lambda>(k, x). (k, if k = key then spec_attribute x else x)) kvs = kvs"
      by (simp add: map_idI)
    moreover have "rewriteTarget key (JObj kvs) = Inr (JObj kvs)"
      using Some False
      by (cases v) (auto simp: rewriteTarget_def isArray_iff split: option.splits json.splits)
    ultimately show ?thesis by simp
  qed
qed

lemma forTargets_obj:
  assumes "distinct (map fst kvs)" and "distinct keys"
    and "\<And>k v. k \<in> set keys \<Longrightarrow> map_of kvs k = Some v \<Longrightarrow>
           files_are_names v \<and> (case v of JObj ob \<Rightarrow> distinct (map fst ob) | _ \<Rightarrow> True)"
  shows "forTargets keys (JObj kvs) =
     Inr (JObj (map (\<lambda>(k, v). (k, if k \<in> set keys then spec_attribute v else v)) kvs))"
  using assms
proof (induction keys arbitrary: kvs)
  case Nil
  then show ?case by (simp add: map_idI split_beta)
next
  case (Cons key keys)
  let ?kvs' = "map (\<lambda>(k, v). (k, if k = key then spec_attribute v else v)) kvs"
  have step: "rewriteTarget key (JObj kvs) = Inr (JObj ?kvs')"
    using Cons.prems by (intro rewriteTarget_obj) auto
  have fst': "map fst ?kvs' = map fst kvs" by (induction kvs) auto
  have look: "\<And>k. k \<noteq> key \<Longrightarrow> map_of ?kvs' k = map_of kvs k"
    by (induction kvs) auto
  have "forTargets keys (JObj ?kvs') =
     Inr (JObj (map (\<lambda>(k, v). (k, if k \<in> set keys then spec_attribute v else v)) ?kvs'))"
  proof (rule Cons.IH)
    show "distinct (map fst ?kvs')" unfolding fst' by (rule Cons.prems(1))
    show "distinct keys" using Cons.prems(2) by simp
    fix k v assume k: "k \<in> set keys" and m: "map_of ?kvs' k = Some v"
    have "k \<noteq> key" using k Cons.prems(2) by auto
    then show "files_are_names v \<and> (case v of JObj ob \<Rightarrow> distinct (map fst ob) | _ \<Rightarrow> True)"
      using Cons.prems(3)[of k v] k m look by simp
  qed
  moreover have "map (\<lambda>(k, v). (k, if k \<in> set keys then spec_attribute v else v)) ?kvs' =
      map (\<lambda>(k, v). (k, if k \<in> set (key # keys) then spec_attribute v else v)) kvs"
    using Cons.prems(2) by (auto simp: map_eq_conv)
  ultimately show ?case using step by simp
qed

lemma endsWith_append: "length b = length suf \<Longrightarrow> endsWith (a @ b) suf \<longleftrightarrow> b = suf"
  by (auto simp: endsWith_def)

lemma renamed_not_webp: "\<not> endsWith (toLowerCase (replace_webp_ext ''.webm'' s)) ''.webp''"
proof (cases "endsWith (toLowerCase s) ''.webp''")
  case True
  have "toLowerCase (take (length s - 5) s @ ''.webm'') = toLowerCase (take (length s - 5) s) @ ''.webm''"
    by (simp add: toLowerCase_def lower_char_def)
  then show ?thesis using True
    by (simp add: replace_webp_ext_def endsWith_append)
next
  case False
  then show ?thesis by (simp add: replace_webp_ext_def)
qed

lemma well_formed_metaD:
  assumes "well_formed_meta kvs" "k \<in> set targets" "map_of kvs k = Some v"
  shows "files_are_names v \<and> (case v of JObj ob \<Rightarrow> distinct (map fst ob) | _ \<Rightarrow> True)"
proof -
  have "(k, v) \<in> set kvs" using assms(3) by (rule map_of_SomeD)
  then show ?thesis using assms(1,2) by (auto simp: well_formed_meta_def list_all_iff)
qed

lemma forTargets_well_formed:
  assumes "well_formed_meta kvs"
  shows "forTargets targets (JObj kvs) = Inr (spec_meta kvs)"
proof -
  have "distinct targets" by (simp add: targets_def)
  moreover have "distinct (map fst kvs)" using assms by (simp add: well_formed_meta_def)
  ultimately show ?thesis
    unfolding spec_meta_def
    using well_formed_metaD[OF assms] by (intro forTargets_obj) auto
qed

text \<open>
  The copy \<open>JSON.parse(JSON.stringify(meta))\<close> makes is the value itself when every number
  in it is finite; in any case it keeps the names of the properties and the strings of the
  file lists.
\<close>

lemma deepClone_finite: "finite_numbers j \<Longrightarrow> deepClone j = j"
proof (induction j)
  case (JNum n)
  then show ?case by (cases n) simp_all
next
  case (JArr xs)
  then have "map deepClone xs = xs" by (intro map_idI) (simp add: list_all_iff)
  then show ?case by simp
next
  case (JObj kvs)
  have "map (map_prod id deepClone) kvs = kvs"
  proof (rule map_idI)
    fix p assume p: "p \<in> set kvs"
    obtain k v where kv: "p = (k, v)" by (cases p)
    have "finite_numbers v" using JObj.prems p kv by (auto simp: list_all_iff)
    moreover have "v \<in> Basic_BNFs.snds p" using kv by simp
    ultimately have "deepClone v = v" using JObj.IH p by blast
    then show "map_prod id deepClone p = p" using kv by simp
  qed
  then show ?case by simp
qed simp_all

lemma deepClone_string: "is_string x \<Longrightarrow> deepClone x = x"
  by (cases x) simp_all

lemma deepClone_array: "deepClone x = JArr ys \<Longrightarrow> \<exists>xs. x = JArr xs \<and> ys = map deepClone xs"
proof (cases x)
  case (JNum n)
  assume "deepClone x = JArr ys"
  then show ?thesis using JNum by (cases n) simp_all
qed auto

lemma map_of_deepClone:
  "map_of (map (map_prod id deepClone) kvs) k = map_option deepClone (map_of kvs k)"
  by (induction kvs) auto

lemma files_are_names_deepClone:
  assumes "files_are_names v"
  shows "files_are_names (deepClone v)"
proof (cases v)
  case (JNum n)
  then show ?thesis by (cases n) (simp_all add: files_are_names_def)
next
  case (JObj ob)
  show ?thesis
  proof (cases "map_of ob ''files''")
    case None
    then show ?thesis using JObj by (simp add: files_are_names_def map_of_deepClone)
  next
    case (Some x)
    show ?thesis
    proof (cases "\<exists>ys. deepClone x = JArr ys")
      case True
      then obtain ys where ys: "deepClone x = JArr ys" by blast
      then obtain xs where xs: "x = JArr xs" "ys = map deepClone xs"
        using deepClone_array by blast
      have "list_all is_string xs" using assms JObj Some xs(1) by (simp add: files_are_names_def)
      then have "list_all is_string (map deepClone xs)"
        by (simp add: list_all_iff deepClone_string)
      then show ?thesis using JObj Some xs by (simp add: files_are_names_def map_of_deepClone)
    next
      case False
      then show ?thesis using JObj Some
        by (cases "deepClone x") (simp_all add: files_are_names_def map_of_deepClone)
    qed
  qed
qed (simp_all add: files_are_names_def)

lemma well_formed_meta_deepClone:
  assumes "well_formed_meta kvs"
  shows "well_formed_meta (map (map_prod id deepClone) kvs)"
proof -
  have keys: "map fst (map (map_prod id deepClone) ob) = map fst ob" for ob
    by (induction ob) auto
  have "files_are_names (deepClone v) \<and>
        (case deepClone v of JObj ob \<Rightarrow> distinct (map fst ob) | _ \<Rightarrow> True)"
    if "files_are_names v \<and> (case v of JObj ob \<Rightarrow> distinct (map fst ob) | _ \<Rightarrow> True)" for v
  proof (cases v)
    case (JNum n)
    then show ?thesis by (cases n) (simp_all add: files_are_names_def)
  next
    case (JObj ob)
    then show ?thesis using that files_are_names_deepClone[of v] by (simp add: keys)
  qed (simp_all add: files_are_names_def)
  then show ?thesis
    using assms by (auto simp: well_formed_meta_def keys list_all_iff)
qed

text \<open>
  In general, \<open>mapMetaToWebm\<close> rewrites the copy: a number that is not finite is \<open>null\<close>
  in what it returns, and negative zero is zero.
\<close>

lemma mapMetaToWebm_of_copy:
  assumes "well_formed_meta kvs"
  shows "mapMetaToWebm (JObj kvs) = Inr (spec_meta (map (map_prod id deepClone) kvs))"
  using forTargets_well_formed[OF well_formed_meta_deepClone[OF assms]]
  by (simp add: mapMetaToWebm_def)

lemma mapMetaToWebm_loses_infinity:
  "well_formed_meta [(''bound'', JNum PosInfinity), (''zero'', JNum NegZero)] \<and>
   mapMetaToWebm (JObj [(''bound'', JNum PosInfinity), (''zero'', JNum NegZero)]) =
     Inr (JObj [(''bound'', JNull), (''zero'', JNum (Finite 0))])"
  by (simp add: well_formed_meta_def targets_def mapMetaToWebm_def rewriteTarget_def)

text \<open>
  In the store, the call touches no cell that was there before it: the copy lives in new
  cells, every address the copy holds is the address of a new cell, and the loop writes
  only into objects it reaches from the copy.
\<close>

lemma freshFrom_iff:
  "freshFrom n s \<longleftrightarrow> (\<forall>a. n \<le> a \<and> a < length s \<longrightarrow> (\<forall>r \<in> cellRefs (s ! a). n \<le> r))"
  by (auto simp: freshFrom_def)

lemma freshFrom_snoc:
  assumes "freshFrom n t" "\<forall>r \<in> cellRefs c. n \<le> r"
  shows "freshFrom n (t @ [c])"
  unfolding freshFrom_iff
proof (intro allI impI)
  fix a assume a: "n \<le> a \<and> a < length (t @ [c])"
  show "\<forall>r \<in> cellRefs ((t @ [c]) ! a). n \<le> r"
  proof (cases "a < length t")
    case True
    then show ?thesis using assms(1) a by (simp add: freshFrom_iff nth_append)
  next
    case False
    then have "a = length t" using a by simp
    then show ?thesis using assms(2) by simp
  qed
qed

lemma alloc_fresh:
  "alloc j s = (v, s1) \<Longrightarrow> n \<le> length s \<Longrightarrow> freshFrom n s \<Longrightarrow>
     (\<exists>new. s1 = s @ new) \<and> freshFrom n s1 \<and> (\<forall>r \<in> refsOf v. n \<le> r)"
  "allocAll xs s = (vs, s1) \<Longrightarrow> n \<le> length s \<Longrightarrow> freshFrom n s \<Longrightarrow>
     (\<exists>new. s1 = s @ new) \<and> freshFrom n s1 \<and>
     (\<forall>v \<in> set vs. \<forall>r \<in> refsOf v. n \<le> r)"
  "allocFields kvs s = (fs, s1) \<Longrightarrow> n \<le> length s \<Longrightarrow> freshFrom n s \<Longrightarrow>
     (\<exists>new. s1 = s @ new) \<and> freshFrom n s1 \<and>
     (\<forall>v \<in> snd ` set fs. \<forall>r \<in> refsOf v. n \<le> r)"
proof (induction j s and xs s and kvs s arbitrary: v s1 and vs s1 and fs s1
    rule: alloc_allocAll_allocFields.induct)
  case (1 s)
  then show ?case by auto
next
  case (2 b s)
  then show ?case by auto
next
  case (3 x s)
  then show ?case by auto
next
  case (4 x s)
  then show ?case by auto
next
  case (5 xs s)
  obtain ws t where a: "allocAll xs s = (ws, t)" by (cases "allocAll xs s")
  from "5.IH"[OF a "5.prems"(2,3)] obtain new where
    ih: "t = s @ new" "freshFrom n t" "\<forall>v \<in> set ws. \<forall>r \<in> refsOf v. n \<le> r" by blast
  have v: "v = VRef (length t)" "s1 = t @ [ArrayCell ws]" using "5.prems"(1) a by simp_all
  have c: "\<forall>r \<in> cellRefs (ArrayCell ws). n \<le> r" using ih(3) by simp
  have f: "freshFrom n (t @ [ArrayCell ws])" by (rule freshFrom_snoc[OF ih(2) c])
  have t: "t @ [ArrayCell ws] = s @ (new @ [ArrayCell ws])" using ih(1) by simp
  have r: "\<forall>r \<in> refsOf (VRef (length t)). n \<le> r" using ih(1) "5.prems"(2) by simp
  show ?case unfolding v using f t r by blast
next
  case (6 kvs s)
  obtain ws t where a: "allocFields kvs s = (ws, t)" by (cases "allocFields kvs s")
  from "6.IH"[OF a "6.prems"(2,3)] obtain new where
    ih: "t = s @ new" "freshFrom n t" "\<forall>v \<in> snd ` set ws. \<forall>r \<in> refsOf v. n \<le> r" by blast
  have v: "v = VRef (length t)" "s1 = t @ [ObjectCell ws]" using "6.prems"(1) a by simp_all
  have c: "\<forall>r \<in> cellRefs (ObjectCell ws). n \<le> r" using ih(3) by simp
  have f: "freshFrom n (t @ [ObjectCell ws])" by (rule freshFrom_snoc[OF ih(2) c])
  have t: "t @ [ObjectCell ws] = s @ (new @ [ObjectCell ws])" using ih(1) by simp
  have r: "\<forall>r \<in> refsOf (VRef (length t)). n \<le> r" using ih(1) "6.prems"(2) by simp
  show ?case unfolding v using f t r by blast
next
  case (7 s)
  then show ?case by auto
next
  case (8 x xs s)
  obtain w t where a: "alloc x s = (w, t)" by (cases "alloc x s")
  obtain ws u where b: "allocAll xs t = (ws, u)" by (cases "allocAll xs t")
  from "8.IH"(1)[OF a "8.prems"(2,3)] obtain new1 where
    ih1: "t = s @ new1" "freshFrom n t" "\<forall>r \<in> refsOf w. n \<le> r" by blast
  have nt: "n \<le> length t" using ih1(1) "8.prems"(2) by simp
  from "8.IH"(2)[OF a[symmetric] b nt ih1(2)] obtain new2 where
    ih2: "u = t @ new2" "freshFrom n u" "\<forall>v \<in> set ws. \<forall>r \<in> refsOf v. n \<le> r" by blast
  have r: "vs = w # ws" "s1 = u" using "8.prems"(1) a b by simp_all
  have "u = s @ (new1 @ new2)" using ih1(1) ih2(1) by simp
  moreover have "\<forall>v \<in> set (w # ws). \<forall>r \<in> refsOf v. n \<le> r" using ih1(3) ih2(3) by simp
  ultimately show ?case unfolding r using ih2(2) by blast
next
  case (9 s)
  then show ?case by auto
next
  case (10 k x kvs s)
  obtain w t where a: "alloc x s = (w, t)" by (cases "alloc x s")
  obtain ws u where b: "allocFields kvs t = (ws, u)" by (cases "allocFields kvs t")
  from "10.IH"(1)[OF a "10.prems"(2,3)] obtain new1 where
    ih1: "t = s @ new1" "freshFrom n t" "\<forall>r \<in> refsOf w. n \<le> r" by blast
  have nt: "n \<le> length t" using ih1(1) "10.prems"(2) by simp
  from "10.IH"(2)[OF a[symmetric] b nt ih1(2)] obtain new2 where
    ih2: "u = t @ new2" "freshFrom n u" "\<forall>v \<in> snd ` set ws. \<forall>r \<in> refsOf v. n \<le> r" by blast
  have r: "fs = (k, w) # ws" "s1 = u" using "10.prems"(1) a b by simp_all
  have "u = s @ (new1 @ new2)" using ih1(1) ih2(1) by simp
  moreover have "\<forall>v \<in> snd ` set ((k, w) # ws). \<forall>r \<in> refsOf v. n \<le> r"
    using ih1(3) ih2(3) by simp
  ultimately show ?case unfolding r using ih2(2) by blast
qed

lemma mapE_renameFileV_strings:
  "mapE renameFileV vs = Inr ws \<Longrightarrow> \<forall>w \<in> set ws. refsOf w = {}"
proof (induction vs arbitrary: ws)
  case Nil
  then show ?case by simp
next
  case (Cons v vs)
  then show ?case by (cases v) (auto split: sum.splits)
qed

lemma update_values: "snd ` set (AList.update k v al) \<subseteq> insert v (snd ` set al)"
  by (induction al) auto

lemma freshFrom_update:
  assumes "freshFrom n s" "\<forall>r \<in> cellRefs c. n \<le> r"
  shows "freshFrom n (s[a := c])"
  unfolding freshFrom_iff
proof (intro allI impI)
  fix b assume b: "n \<le> b \<and> b < length (s[a := c])"
  show "\<forall>r \<in> cellRefs (s[a := c] ! b). n \<le> r"
  proof (cases "b = a")
    case True
    then show ?thesis using assms(2) b by simp
  next
    case False
    then show ?thesis using assms(1) b by (simp add: freshFrom_iff)
  qed
qed


lemma getPropV_ref:
  assumes "getPropV s (Some (VRef b0)) key = Inr (Some (VRef a))"
  shows "\<exists>tkvs. b0 < length s \<and> s ! b0 = ObjectCell tkvs \<and> map_of tkvs key = Some (VRef a)"
  using assms by (simp add: cellAt_def split: if_splits cell.splits option.splits)

lemma field_ref:
  assumes "s ! b0 = ObjectCell tkvs" "map_of tkvs key = Some (VRef a)"
  shows "a \<in> cellRefs (s ! b0)"
proof -
  have "(key, VRef a) \<in> set tkvs" using assms(2) by (rule map_of_SomeD)
  then have "VRef a \<in> snd ` set tkvs" by force
  moreover have "a \<in> refsOf (VRef a)" by simp
  ultimately have "a \<in> (\<Union>v \<in> snd ` set tkvs. refsOf v)" by (rule UN_I)
  then show ?thesis using assms(1) by simp
qed

lemma rewriteTargetStore_changes:
  assumes "rewriteTargetStore key cloned s = (r, s')" "s' \<noteq> s"
  shows "\<exists>v f ws. getPropV s (Some cloned) key = Inr v \<and> truthyV v \<and>
     getPropV s v ''files'' = Inr f \<and> isArrayV s f \<and> mapE renameFileV (elementsV s f) = Inr ws \<and>
     s' = setFilesV v (VRef (length s)) (s @ [ArrayCell ws])"
  using assms unfolding rewriteTargetStore_def
  by (simp split: sum.splits if_splits)

lemma setFilesV_cases:
  "setFilesV v x t = t \<or>
   (\<exists>a kvs. v = Some (VRef a) \<and> a < length t \<and> t ! a = ObjectCell kvs \<and>
      setFilesV v x t = t[a := ObjectCell (AList.update ''files'' x kvs)])"
proof (cases v)
  case None
  then show ?thesis by simp
next
  case (Some y)
  show ?thesis
  proof (cases y)
    case (VRef a)
    show ?thesis
    proof (cases "a < length t")
      case True
      then show ?thesis using Some VRef by (cases "t ! a") (simp_all add: cellAt_def)
    next
      case False
      then show ?thesis using Some VRef by (simp add: cellAt_def)
    qed
  qed (simp_all add: Some)
qed

lemma cellRefs_update:
  assumes "\<forall>r \<in> cellRefs (ObjectCell kvs). n \<le> r" "\<forall>r \<in> refsOf x. n \<le> r"
  shows "\<forall>r \<in> cellRefs (ObjectCell (AList.update k x kvs)). n \<le> r"
proof
  fix r assume "r \<in> cellRefs (ObjectCell (AList.update k x kvs))"
  then obtain y where y: "y \<in> snd ` set (AList.update k x kvs)" "r \<in> refsOf y"
    by auto
  from y(1) update_values[of k x kvs] have "y = x \<or> y \<in> snd ` set kvs" by blast
  then show "n \<le> r"
  proof
    assume "y = x"
    then show ?thesis using y(2) assms(2) by blast
  next
    assume "y \<in> snd ` set kvs"
    then have "r \<in> cellRefs (ObjectCell kvs)" using y(2) by auto
    then show ?thesis using assms(1) by blast
  qed
qed

lemma rewriteTargetStore_fresh:
  assumes "rewriteTargetStore key cloned s = (r, s')"
    and "n \<le> length s" "freshFrom n s" "\<forall>a \<in> refsOf cloned. n \<le> a"
  shows "take n s' = take n s \<and> length s \<le> length s' \<and> freshFrom n s'"
proof (cases "s' = s")
  case True
  then show ?thesis using assms(3) by simp
next
  case False
  from rewriteTargetStore_changes[OF assms(1) False] obtain v f ws where
    v: "getPropV s (Some cloned) key = Inr v"
    and ws: "mapE renameFileV (elementsV s f) = Inr ws"
    and s': "s' = setFilesV v (VRef (length s)) (s @ [ArrayCell ws])"
    by blast
  define t where "t = s @ [ArrayCell ws]"
  have lt: "length t = Suc (length s)" by (simp add: t_def)
  have tn: "take n t = take n s" using assms(2) by (simp add: t_def)
  have "\<forall>r \<in> cellRefs (ArrayCell ws). n \<le> r"
    using mapE_renameFileV_strings[OF ws] by simp
  then have ft: "freshFrom n t" unfolding t_def by (rule freshFrom_snoc[OF assms(3)])
  have st: "s' = setFilesV v (VRef (length s)) t" using s' by (simp add: t_def)
  from setFilesV_cases[of v "VRef (length s)" t] show ?thesis
  proof
    assume "setFilesV v (VRef (length s)) t = t"
    then have "s' = t" using st by simp
    then show ?thesis using ft tn lt by simp
  next
    assume "\<exists>a kvs. v = Some (VRef a) \<and> a < length t \<and> t ! a = ObjectCell kvs \<and>
      setFilesV v (VRef (length s)) t = t[a := ObjectCell (AList.update ''files'' (VRef (length s)) kvs)]"
    then obtain a kvs where a: "v = Some (VRef a)" "a < length t" "t ! a = ObjectCell kvs"
      and upd: "s' = t[a := ObjectCell (AList.update ''files'' (VRef (length s)) kvs)]"
      using st by auto
    obtain b0 where b0: "cloned = VRef b0"
      using v a(1) by (cases cloned) simp_all
    have "getPropV s (Some (VRef b0)) key = Inr (Some (VRef a))" using v a(1) b0 by simp
    from getPropV_ref[OF this] obtain tkvs where
      tk: "b0 < length s" "s ! b0 = ObjectCell tkvs" "map_of tkvs key = Some (VRef a)"
      by blast
    have nb: "n \<le> b0" using assms(4) b0 by simp
    have "a \<in> cellRefs (s ! b0)" using tk(2,3) by (rule field_ref)
    moreover have "\<forall>r \<in> cellRefs (s ! b0). n \<le> r"
      using assms(3) nb tk(1) unfolding freshFrom_iff by blast
    ultimately have na: "n \<le> a" by blast
    have "\<forall>r \<in> cellRefs (t ! a). n \<le> r"
      using ft na a(2) unfolding freshFrom_iff by blast
    then have old: "\<forall>r \<in> cellRefs (ObjectCell kvs). n \<le> r" using a(3) by simp
    have "\<forall>r \<in> refsOf (VRef (length s)). n \<le> r" using assms(2) by simp
    with old have "\<forall>r \<in> cellRefs (ObjectCell (AList.update ''files'' (VRef (length s)) kvs)). n \<le> r"
      by (rule cellRefs_update)
    with ft have "freshFrom n s'" unfolding upd by (rule freshFrom_update)
    moreover have "take n s' = take n s" using na tn by (simp add: upd)
    moreover have "length s \<le> length s'" using lt by (simp add: upd)
    ultimately show ?thesis by blast
  qed
qed

lemma forTargetsStore_fresh:
  assumes "forTargetsStore keys cloned s = (r, s')"
    and "n \<le> length s" "freshFrom n s" "\<forall>a \<in> refsOf cloned. n \<le> a"
  shows "take n s' = take n s \<and> length s \<le> length s' \<and> freshFrom n s'"
  using assms(1,2,3)
proof (induction keys arbitrary: s)
  case Nil
  then show ?case by simp
next
  case (Cons key keys)
  obtain r1 s1 where st: "rewriteTargetStore key cloned s = (r1, s1)"
    by (cases "rewriteTargetStore key cloned s")
  note f = rewriteTargetStore_fresh[OF st Cons.prems(2,3) assms(4)]
  show ?case
  proof (cases r1)
    case (Inl e)
    then have "s' = s1" using Cons.prems(1) st by simp
    then show ?thesis using f by simp
  next
    case (Inr u)
    then have run: "forTargetsStore keys cloned s1 = (r, s')" using Cons.prems(1) st by simp
    have n1: "n \<le> length s1" using f Cons.prems(2) by simp
    have f1: "freshFrom n s1" using f by simp
    from Cons.IH[OF run n1 f1] f show ?thesis by simp
  qed
qed

lemma freshFrom_length: "freshFrom (length s) s"
  by (simp add: freshFrom_iff)

lemma mapMetaToWebmStore_copy:
  assumes "mapMetaToWebmStore v s = (r, s')"
  shows "take (length s) s' = s \<and> freshFrom (length s) s' \<and>
         (\<forall>v'. r = Inr v' \<longrightarrow> (\<forall>a \<in> refsOf v'. length s \<le> a))"
proof (cases "readJson (length s) s v")
  case None
  then have "s' = s" "r = Inl (TypeError ''Converting circular structure to JSON'')"
    using assms by (simp_all add: mapMetaToWebmStore_def)
  then show ?thesis using freshFrom_length by simp
next
  case (Some j)
  obtain cloned s1 where a: "alloc (deepClone j) s = (cloned, s1)"
    by (cases "alloc (deepClone j) s")
  from alloc_fresh(1)[OF a le_refl freshFrom_length] obtain new where
    al: "s1 = s @ new" "freshFrom (length s) s1" "\<forall>r \<in> refsOf cloned. length s \<le> r" by blast
  obtain r2 s2 where l: "forTargetsStore targets cloned s1 = (r2, s2)"
    by (cases "forTargetsStore targets cloned s1")
  have "length s \<le> length s1" using al(1) by simp
  from forTargetsStore_fresh[OF l this al(2,3)] have
    f: "take (length s) s2 = take (length s) s1" "freshFrom (length s) s2" by simp_all
  have t2: "take (length s) s2 = s" using f(1) al(1) by simp
  have res: "s' = s2 \<and> (\<forall>v'. r = Inr v' \<longrightarrow> v' = cloned)"
  proof (cases r2)
    case (Inl e)
    then show ?thesis using assms Some a l by (auto simp: mapMetaToWebmStore_def)
  next
    case (Inr u)
    then show ?thesis using assms Some a l by (auto simp: mapMetaToWebmStore_def)
  qed
  show ?thesis using t2 f(2) res al(3) by simp
qed

lemma mapMetaToWebmStore_keeps_input:
  "take (length s) (snd (mapMetaToWebmStore v s)) = s"
  using mapMetaToWebmStore_copy[of v s] by (cases "mapMetaToWebmStore v s") simp

text \<open>
  What the call computes in the store is what \<open>mapMetaToWebm\<close> computes on the value the
  argument holds: \<open>JSON.parse\<close> builds a tree, each iteration of the loop turns a tree
  for a value into a tree for the value \<open>rewriteTarget\<close> gives, and a tree reads as its
  value.
\<close>

inductive_cases treesAt_NilE: "treesAt s [] js F"
inductive_cases treesAt_ConsE: "treesAt s (v # vs) js F"
inductive_cases fieldsAt_NilE: "fieldsAt s [] kvs F"
inductive_cases fieldsAt_ConsE: "fieldsAt s (f # fs) kvs F"

lemma tree_bounds:
  shows "treeAt s v j F \<Longrightarrow> F \<subseteq> {..<length s} \<and> refsOf v \<subseteq> F \<and> finite F"
    and "treesAt s vs js F \<Longrightarrow> F \<subseteq> {..<length s} \<and> (\<forall>v \<in> set vs. refsOf v \<subseteq> F) \<and> finite F"
    and "fieldsAt s fs kvs F \<Longrightarrow>
           F \<subseteq> {..<length s} \<and> (\<forall>v \<in> snd ` set fs. refsOf v \<subseteq> F) \<and> finite F"
proof (induction rule: treeAt_treesAt_fieldsAt.inducts)
  case (tree_arr a vs xs F)
  then show ?case by simp
next
  case (tree_obj a fs kvs F)
  then show ?case by simp
next
  case (trees_cons v j F vs js G)
  then show ?case by (simp add: le_supI1 le_supI2)
next
  case (fields_cons v j F fs kvs G k)
  then show ?case by (simp add: le_supI1 le_supI2)
qed simp_all

lemma tree_frame:
  shows "treeAt s v j F \<Longrightarrow> (\<forall>a \<in> F. a < length s' \<and> s' ! a = s ! a) \<Longrightarrow> treeAt s' v j F"
    and "treesAt s vs js F \<Longrightarrow> (\<forall>a \<in> F. a < length s' \<and> s' ! a = s ! a) \<Longrightarrow> treesAt s' vs js F"
    and "fieldsAt s fs kvs F \<Longrightarrow> (\<forall>a \<in> F. a < length s' \<and> s' ! a = s ! a) \<Longrightarrow>
           fieldsAt s' fs kvs F"
proof (induction rule: treeAt_treesAt_fieldsAt.inducts)
  case (tree_arr a vs xs F)
  then show ?case by (intro treeAt_treesAt_fieldsAt.tree_arr) simp_all
next
  case (tree_obj a fs kvs F)
  then show ?case by (intro treeAt_treesAt_fieldsAt.tree_obj) simp_all
next
  case (trees_cons v j F vs js G)
  then show ?case by (intro treeAt_treesAt_fieldsAt.trees_cons) simp_all
next
  case (fields_cons v j F fs kvs G k)
  then show ?case by (intro treeAt_treesAt_fieldsAt.fields_cons) simp_all
qed (auto intro: treeAt_treesAt_fieldsAt.intros)

lemma tree_append:
  shows "treeAt s v j F \<Longrightarrow> treeAt (s @ new) v j F"
    and "treesAt s vs js F \<Longrightarrow> treesAt (s @ new) vs js F"
    and "fieldsAt s fs kvs F \<Longrightarrow> fieldsAt (s @ new) fs kvs F"
proof -
  have fr: "F \<subseteq> {..<length s} \<Longrightarrow> \<forall>a \<in> F. a < length (s @ new) \<and> (s @ new) ! a = s ! a" for F
  proof
    fix a assume "F \<subseteq> {..<length s}" "a \<in> F"
    then have "a < length s" by blast
    then show "a < length (s @ new) \<and> (s @ new) ! a = s ! a" by (simp add: nth_append)
  qed
  show "treeAt s v j F \<Longrightarrow> treeAt (s @ new) v j F"
    using tree_bounds(1)[of s v j F] fr[of F] tree_frame(1)[of s v j F "s @ new"] by blast
  show "treesAt s vs js F \<Longrightarrow> treesAt (s @ new) vs js F"
    using tree_bounds(2)[of s vs js F] fr[of F] tree_frame(2)[of s vs js F "s @ new"] by blast
  show "fieldsAt s fs kvs F \<Longrightarrow> fieldsAt (s @ new) fs kvs F"
    using tree_bounds(3)[of s fs kvs F] fr[of F] tree_frame(3)[of s fs kvs F "s @ new"] by blast
qed

lemma those_map_Some: "those (map Some xs) = Some xs"
  by (induction xs) simp_all

lemma tree_read:
  shows "treeAt s v j F \<Longrightarrow> card F \<le> n \<Longrightarrow> readJson n s v = Some j"
    and "treesAt s vs js F \<Longrightarrow> card F \<le> n \<Longrightarrow> map (readJson n s) vs = map Some js"
    and "fieldsAt s fs kvs F \<Longrightarrow> card F \<le> n \<Longrightarrow>
           map (\<lambda>(k, v). map_option (Pair k) (readJson n s v)) fs = map Some kvs"
proof (induction arbitrary: n and n and n rule: treeAt_treesAt_fieldsAt.inducts)
  case (tree_arr a vs xs F)
  have t: "treesAt s vs xs F" and nf: "a \<notin> F" and c: "a < length s" "s ! a = ArrayCell vs"
    and pr: "card (insert a F) \<le> n" by fact+
  have ih: "\<And>m. card F \<le> m \<Longrightarrow> map (readJson m s) vs = map Some xs" by fact
  have "finite F" using tree_bounds(2)[OF t] by simp
  then have "card (insert a F) = Suc (card F)" using nf by simp
  then obtain m where m: "n = Suc m" "card F \<le> m" using pr by (cases n) simp_all
  have "map (readJson m s) vs = map Some xs" using ih[OF m(2)] .
  then show ?case using c by (simp add: m(1) those_map_Some)
next
  case (tree_obj a fs kvs F)
  have t: "fieldsAt s fs kvs F" and nf: "a \<notin> F" and c: "a < length s" "s ! a = ObjectCell fs"
    and pr: "card (insert a F) \<le> n" by fact+
  have ih: "\<And>m. card F \<le> m \<Longrightarrow>
      map (\<lambda>(k, v). map_option (Pair k) (readJson m s v)) fs = map Some kvs" by fact
  have "finite F" using tree_bounds(3)[OF t] by simp
  then have "card (insert a F) = Suc (card F)" using nf by simp
  then obtain m where m: "n = Suc m" "card F \<le> m" using pr by (cases n) simp_all
  have "map (\<lambda>(k, v). map_option (Pair k) (readJson m s v)) fs = map Some kvs"
    using ih[OF m(2)] .
  then show ?case using c by (simp add: m(1) those_map_Some)
next
  case (trees_cons v j F vs js G)
  have t: "treeAt s v j F" "treesAt s vs js G" and pr: "card (F \<union> G) \<le> n" by fact+
  have ih1: "\<And>m. card F \<le> m \<Longrightarrow> readJson m s v = Some j" by fact
  have ih2: "\<And>m. card G \<le> m \<Longrightarrow> map (readJson m s) vs = map Some js" by fact
  have fin: "finite F" "finite G"
    using tree_bounds(1)[OF t(1)] tree_bounds(2)[OF t(2)] by simp_all
  have "card F \<le> card (F \<union> G)" "card G \<le> card (F \<union> G)"
    using fin by (simp_all add: card_mono)
  then have "card F \<le> n" "card G \<le> n" using pr by simp_all
  then show ?case using ih1 ih2 by simp
next
  case (fields_cons v j F fs kvs G k)
  have t: "treeAt s v j F" "fieldsAt s fs kvs G" and pr: "card (F \<union> G) \<le> n" by fact+
  have ih1: "\<And>m. card F \<le> m \<Longrightarrow> readJson m s v = Some j" by fact
  have ih2: "\<And>m. card G \<le> m \<Longrightarrow>
      map (\<lambda>(k, v). map_option (Pair k) (readJson m s v)) fs = map Some kvs" by fact
  have fin: "finite F" "finite G"
    using tree_bounds(1)[OF t(1)] tree_bounds(3)[OF t(2)] by simp_all
  have "card F \<le> card (F \<union> G)" "card G \<le> card (F \<union> G)"
    using fin by (simp_all add: card_mono)
  then have "card F \<le> n" "card G \<le> n" using pr by simp_all
  then show ?case using ih1 ih2 by simp
qed simp_all

lemma tree_readable:
  assumes "treeAt s v j F"
  shows "readJson (length s) s v = Some j"
proof -
  have "F \<subseteq> {..<length s}" using tree_bounds(1)[OF assms] by simp
  then have "card F \<le> card {..<length s}" by (intro card_mono) simp_all
  then have "card F \<le> length s" by simp
  then show ?thesis by (rule tree_read(1)[OF assms])
qed

lemma ranges_disjoint:
  assumes "F1 \<subseteq> {a..<b::nat}" "F2 \<subseteq> {b..<c}"
  shows "F1 \<inter> F2 = {}"
proof (rule ccontr)
  assume "F1 \<inter> F2 \<noteq> {}"
  then obtain x where "x \<in> F1" "x \<in> F2" by blast
  then have "x \<in> {a..<b}" "x \<in> {b..<c}" using assms by blast+
  then show False by simp
qed

lemma alloc_tree:
  shows "alloc j s = (v, s1) \<Longrightarrow>
           \<exists>F new. treeAt s1 v j F \<and> F \<subseteq> {length s..<length s1} \<and> s1 = s @ new"
    and "allocAll xs s = (vs, s1) \<Longrightarrow>
           \<exists>F new. treesAt s1 vs xs F \<and> F \<subseteq> {length s..<length s1} \<and> s1 = s @ new"
    and "allocFields kvs s = (fs, s1) \<Longrightarrow>
           \<exists>F new. fieldsAt s1 fs kvs F \<and> F \<subseteq> {length s..<length s1} \<and> s1 = s @ new"
proof (induction j s and xs s and kvs s arbitrary: v s1 and vs s1 and fs s1
    rule: alloc_allocAll_allocFields.induct)
  case (1 s)
  then have "treeAt s1 v JNull {} \<and> s1 = s @ []" by (auto intro: tree_null)
  then show ?case by blast
next
  case (2 b s)
  then have "treeAt s1 v (JBool b) {} \<and> s1 = s @ []" by (auto intro: tree_bool)
  then show ?case by blast
next
  case (3 x s)
  then have "treeAt s1 v (JNum x) {} \<and> s1 = s @ []" by (auto intro: tree_num)
  then show ?case by blast
next
  case (4 x s)
  then have "treeAt s1 v (JStr x) {} \<and> s1 = s @ []" by (auto intro: tree_str)
  then show ?case by blast
next
  case (5 xs s)
  obtain ws t where a: "allocAll xs s = (ws, t)" by (cases "allocAll xs s")
  from "5.IH"[OF a] obtain F new where
    ih: "treesAt t ws xs F" "F \<subseteq> {length s..<length t}" "t = s @ new" by blast
  have v: "v = VRef (length t)" "s1 = t @ [ArrayCell ws]" using "5.prems"(1) a by simp_all
  have "treesAt (t @ [ArrayCell ws]) ws xs F" using ih(1) by (rule tree_append(2))
  moreover have "length t \<notin> F" using ih(2) by auto
  ultimately have "treeAt (t @ [ArrayCell ws]) (VRef (length t)) (JArr xs) (insert (length t) F)"
    by (intro tree_arr) simp_all
  moreover have "insert (length t) F \<subseteq> {length s..<length (t @ [ArrayCell ws])}"
    using ih(2,3) by auto
  moreover have "t @ [ArrayCell ws] = s @ (new @ [ArrayCell ws])" using ih(3) by simp
  ultimately show ?case unfolding v by blast
next
  case (6 kvs s)
  obtain ws t where a: "allocFields kvs s = (ws, t)" by (cases "allocFields kvs s")
  from "6.IH"[OF a] obtain F new where
    ih: "fieldsAt t ws kvs F" "F \<subseteq> {length s..<length t}" "t = s @ new" by blast
  have v: "v = VRef (length t)" "s1 = t @ [ObjectCell ws]" using "6.prems"(1) a by simp_all
  have "fieldsAt (t @ [ObjectCell ws]) ws kvs F" using ih(1) by (rule tree_append(3))
  moreover have "length t \<notin> F" using ih(2) by auto
  ultimately have "treeAt (t @ [ObjectCell ws]) (VRef (length t)) (JObj kvs) (insert (length t) F)"
    by (intro tree_obj) simp_all
  moreover have "insert (length t) F \<subseteq> {length s..<length (t @ [ObjectCell ws])}"
    using ih(2,3) by auto
  moreover have "t @ [ObjectCell ws] = s @ (new @ [ObjectCell ws])" using ih(3) by simp
  ultimately show ?case unfolding v by blast
next
  case (7 s)
  then have "treesAt s1 vs [] {} \<and> s1 = s @ []" by (auto intro: trees_nil)
  then show ?case by blast
next
  case (8 x xs s)
  obtain w t where a: "alloc x s = (w, t)" by (cases "alloc x s")
  obtain ws u where b: "allocAll xs t = (ws, u)" by (cases "allocAll xs t")
  from "8.IH"(1)[OF a] obtain F1 new1 where
    ih1: "treeAt t w x F1" "F1 \<subseteq> {length s..<length t}" "t = s @ new1" by blast
  from "8.IH"(2)[OF a[symmetric] b] obtain F2 new2 where
    ih2: "treesAt u ws xs F2" "F2 \<subseteq> {length t..<length u}" "u = t @ new2" by blast
  have r: "vs = w # ws" "s1 = u" using "8.prems"(1) a b by simp_all
  have "treeAt u w x F1" unfolding ih2(3) using ih1(1) by (rule tree_append(1))
  moreover have "F1 \<inter> F2 = {}" using ih1(2) ih2(2) by (rule ranges_disjoint)
  ultimately have "treesAt u (w # ws) (x # xs) (F1 \<union> F2)"
    using ih2(1) by (intro trees_cons)
  moreover have "F1 \<union> F2 \<subseteq> {length s..<length u}" using ih1(2,3) ih2(2,3) by auto
  moreover have "u = s @ (new1 @ new2)" using ih1(3) ih2(3) by simp
  ultimately show ?case unfolding r by blast
next
  case (9 s)
  then have "fieldsAt s1 fs [] {} \<and> s1 = s @ []" by (auto intro: fields_nil)
  then show ?case by blast
next
  case (10 k x kvs s)
  obtain w t where a: "alloc x s = (w, t)" by (cases "alloc x s")
  obtain ws u where b: "allocFields kvs t = (ws, u)" by (cases "allocFields kvs t")
  from "10.IH"(1)[OF a] obtain F1 new1 where
    ih1: "treeAt t w x F1" "F1 \<subseteq> {length s..<length t}" "t = s @ new1" by blast
  from "10.IH"(2)[OF a[symmetric] b] obtain F2 new2 where
    ih2: "fieldsAt u ws kvs F2" "F2 \<subseteq> {length t..<length u}" "u = t @ new2" by blast
  have r: "fs = (k, w) # ws" "s1 = u" using "10.prems"(1) a b by simp_all
  have "treeAt u w x F1" unfolding ih2(3) using ih1(1) by (rule tree_append(1))
  moreover have "F1 \<inter> F2 = {}" using ih1(2) ih2(2) by (rule ranges_disjoint)
  ultimately have "fieldsAt u ((k, w) # ws) ((k, x) # kvs) (F1 \<union> F2)"
    using ih2(1) by (intro fields_cons)
  moreover have "F1 \<union> F2 \<subseteq> {length s..<length u}" using ih1(2,3) ih2(2,3) by auto
  moreover have "u = s @ (new1 @ new2)" using ih1(3) ih2(3) by simp
  ultimately show ?case unfolding r by blast
qed

inductive_cases treeAt_ObjE: "treeAt s (VRef a) (JObj kvs) F"
inductive_cases treeAt_ArrE: "treeAt s (VRef a) (JArr xs) F"

lemma fields_lookup:
  assumes "fieldsAt s fs kvs F"
  shows "(map_of fs k = None \<longrightarrow> map_of kvs k = None) \<and>
         (\<forall>v. map_of fs k = Some v \<longrightarrow>
            (\<exists>j G. map_of kvs k = Some j \<and> treeAt s v j G \<and> G \<subseteq> F))"
  using assms
proof (induction fs arbitrary: kvs F)
  case Nil
  from Nil.prems have "kvs = []" by (rule fieldsAt_NilE)
  then show ?case by simp
next
  case (Cons f fs)
  from Cons.prems show ?case
  proof (rule fieldsAt_ConsE)
    fix v j F1 kvs' G k0
    assume d: "f = (k0, v)" "kvs = (k0, j) # kvs'" "F = F1 \<union> G"
      and t: "treeAt s v j F1" and r: "fieldsAt s fs kvs' G"
    show ?thesis
    proof (cases "k0 = k")
      case True
      have "F1 \<subseteq> F" using d(3) by simp
      then show ?thesis using True d(1,2) t by auto
    next
      case False
      note ih = Cons.IH[OF r]
      have "G \<subseteq> F" using d(3) by simp
      then have "\<forall>v. map_of fs k = Some v \<longrightarrow>
            (\<exists>j G. map_of kvs' k = Some j \<and> treeAt s v j G \<and> G \<subseteq> F)"
        using ih by blast
      then show ?thesis using False d(1,2) ih by simp
    qed
  qed
qed

lemma truthy_tree: "treeAt s v j F \<Longrightarrow> truthyV (Some v) = truthy (Some j)"
  by (erule treeAt.cases) simp_all

lemma strings_are_trees:
  assumes "treesAt s es xs H"
  shows "(\<forall>e. mapE renameFile xs = Inl e \<longrightarrow> mapE renameFileV es = Inl e) \<and>
         (\<forall>ys. mapE renameFile xs = Inr ys \<longrightarrow>
            (\<exists>ws. mapE renameFileV es = Inr ws \<and> (\<forall>s'. treesAt s' ws ys {})))"
  using assms
proof (induction es arbitrary: xs H)
  case Nil
  from Nil.prems have "xs = []" by (rule treesAt_NilE)
  then show ?case by (simp add: trees_nil)
next
  case (Cons v vs)
  from Cons.prems show ?case
  proof (rule treesAt_ConsE)
    fix j F1 js G
    assume d: "xs = j # js" and t: "treeAt s v j F1" and r: "treesAt s vs js G"
    note ih = Cons.IH[OF r]
    from t show ?thesis
    proof (cases rule: treeAt.cases)
      case (tree_str x)
      have one: "treesAt s' (VStr y # ws) (JStr y # ys) {}" if "treesAt s' ws ys {}" for s' y ws ys
        using trees_cons[OF treeAt_treesAt_fieldsAt.tree_str[of s' y] that] by simp
      show ?thesis
      proof (cases "mapE renameFile js")
        case (Inl e)
        then show ?thesis using ih d tree_str by simp
      next
        case (Inr ys)
        then obtain ws where ws: "mapE renameFileV vs = Inr ws" "\<forall>s'. treesAt s' ws ys {}"
          using ih by blast
        then show ?thesis using d tree_str Inr one by simp
      qed
    qed (simp_all add: d)
  qed
qed

lemma fields_update:
  assumes "fieldsAt s fs kvs G"
    and "\<forall>b \<in> G. b < length s' \<and> s' ! b = s ! b"
    and "treeAt s' x xj N" "N \<inter> G = {}"
  shows "\<exists>G'. fieldsAt s' (AList.update k x fs) (AList.update k xj kvs) G' \<and> G' \<subseteq> N \<union> G"
  using assms(1,2,4)
proof (induction fs arbitrary: kvs G)
  case Nil
  from Nil.prems(1) have "kvs = []" by (rule fieldsAt_NilE)
  moreover have "fieldsAt s' [(k, x)] [(k, xj)] (N \<union> {})"
    using assms(3) fields_nil by (intro fields_cons) simp_all
  ultimately show ?case by auto
next
  case (Cons f fs)
  from Cons.prems(1) show ?case
  proof (rule fieldsAt_ConsE)
    fix v j F1 kvs' G1 k0
    assume d: "f = (k0, v)" "kvs = (k0, j) # kvs'" "G = F1 \<union> G1"
      and t: "treeAt s v j F1" and r: "fieldsAt s fs kvs' G1" and dj: "F1 \<inter> G1 = {}"
    have fr1: "\<forall>b \<in> F1. b < length s' \<and> s' ! b = s ! b"
      and frG: "\<forall>b \<in> G1. b < length s' \<and> s' ! b = s ! b"
      using Cons.prems(2) d(3) by simp_all
    have n1: "N \<inter> F1 = {}" and nG: "N \<inter> G1 = {}" using Cons.prems(3) d(3) by auto
    show ?thesis
    proof (cases "k0 = k")
      case True
      have "fieldsAt s' fs kvs' G1" using r frG by (rule tree_frame(3))
      then have "fieldsAt s' ((k, x) # fs) ((k, xj) # kvs') (N \<union> G1)"
        using assms(3) nG by (intro fields_cons)
      moreover have "N \<union> G1 \<subseteq> N \<union> G" using d(3) by auto
      ultimately show ?thesis using True d(1,2) by auto
    next
      case False
      from Cons.IH[OF r frG nG] obtain G' where
        g: "fieldsAt s' (AList.update k x fs) (AList.update k xj kvs') G'" "G' \<subseteq> N \<union> G1"
        by blast
      have "treeAt s' v j F1" using t fr1 by (rule tree_frame(1))
      moreover have "F1 \<inter> G' = {}" using g(2) n1 dj by auto
      ultimately have "fieldsAt s' ((k0, v) # AList.update k x fs) ((k0, j) # AList.update k xj kvs')
          (F1 \<union> G')"
        using g(1) by (intro fields_cons)
      moreover have "F1 \<union> G' \<subseteq> N \<union> G" using g(2) d(3) by auto
      ultimately show ?thesis using False d(1,2) by auto
    qed
  qed
qed

lemma subtree_update:
  assumes "treeAt s (VRef a) (JObj jkvs) G" "s ! a = ObjectCell akvs"
    and s': "s' = (s @ [ArrayCell ws])[a := ObjectCell (AList.update ''files'' (VRef (length s)) akvs)]"
    and leaves: "treesAt s' ws ys {}"
  shows "\<exists>G'. treeAt s' (VRef a) (JObj (AList.update ''files'' (JArr ys) jkvs)) G' \<and>
               G' \<subseteq> insert (length s) G"
  using assms(1)
proof (rule treeAt_ObjE)
  fix fs0 G0
  assume d: "G = insert a G0" "a < length s" "s ! a = ObjectCell fs0"
    "fieldsAt s fs0 jkvs G0" "a \<notin> G0"
  have fs0: "fs0 = akvs" using d(3) assms(2) by simp
  have b: "G0 \<subseteq> {..<length s}" using tree_bounds(3)[OF d(4)] by simp
  have fr: "\<forall>b \<in> G0. b < length s' \<and> s' ! b = s ! b"
  proof
    fix c assume c: "c \<in> G0"
    then have "c < length s" "c \<noteq> a" using b d(5) by auto
    then show "c < length s' \<and> s' ! c = s ! c" by (simp add: s' nth_append)
  qed
  have cell: "s' ! length s = ArrayCell ws" "length s < length s'"
    using d(2) by (simp_all add: s')
  have leaf: "treeAt s' (VRef (length s)) (JArr ys) (insert (length s) {})"
    using cell leaves by (intro tree_arr) simp_all
  have "insert (length s) {} \<inter> G0 = {}" using b by auto
  from fields_update[OF d(4) fr leaf this, of "''files''"] obtain G' where
    g: "fieldsAt s' (AList.update ''files'' (VRef (length s)) fs0)
          (AList.update ''files'' (JArr ys) jkvs) G'"
       "G' \<subseteq> insert (length s) {} \<union> G0"
    by blast
  have "a \<notin> G'" using g(2) d(2,5) by auto
  moreover have "s' ! a = ObjectCell (AList.update ''files'' (VRef (length s)) fs0)"
    using d(2) by (simp add: s' fs0)
  moreover have "a < length s'" using d(2) by (simp add: s')
  ultimately have "treeAt s' (VRef a) (JObj (AList.update ''files'' (JArr ys) jkvs)) (insert a G')"
    using g(1) by (intro tree_obj)
  moreover have "insert a G' \<subseteq> insert (length s) G" using g(2) d(1) by auto
  ultimately show ?thesis by blast
qed

lemma top_update:
  assumes "fieldsAt s fs kvs F" "map_of fs key = Some (VRef a)" "map_of kvs key = Some tj"
    and frame: "\<forall>b. b < length s \<and> b \<noteq> a \<longrightarrow> b < length s' \<and> s' ! b = s ! b"
    and sub: "\<And>G. treeAt s (VRef a) tj G \<Longrightarrow>
               \<exists>G'. treeAt s' (VRef a) tj' G' \<and> G' \<subseteq> insert (length s) G"
  shows "\<exists>F'. fieldsAt s' fs (AList.update key tj' kvs) F' \<and> F' \<subseteq> insert (length s) F"
  using assms(1,2,3)
proof (induction fs arbitrary: kvs F)
  case Nil
  then show ?case by simp
next
  case (Cons f fs)
  from Cons.prems(1) show ?case
  proof (rule fieldsAt_ConsE)
    fix v j F1 kvs' G k0
    assume d: "f = (k0, v)" "kvs = (k0, j) # kvs'" "F = F1 \<union> G"
      and t: "treeAt s v j F1" and r: "fieldsAt s fs kvs' G" and dj: "F1 \<inter> G = {}"
    have b1: "F1 \<subseteq> {..<length s}" "refsOf v \<subseteq> F1" using tree_bounds(1)[OF t] by simp_all
    have bG: "G \<subseteq> {..<length s}" "\<forall>w \<in> snd ` set fs. refsOf w \<subseteq> G"
      using tree_bounds(3)[OF r] by simp_all
    show ?thesis
    proof (cases "k0 = key")
      case True
      have v: "v = VRef a" "j = tj" using Cons.prems(2,3) d(1,2) True by simp_all
      from sub[OF t[unfolded v]] obtain G' where
        g: "treeAt s' (VRef a) tj' G'" "G' \<subseteq> insert (length s) F1" by blast
      have "a \<in> F1" using b1(2) v(1) by simp
      then have "a \<notin> G" using dj by auto
      then have "\<forall>b \<in> G. b < length s' \<and> s' ! b = s ! b" using bG(1) frame by auto
      with r have "fieldsAt s' fs kvs' G" by (rule tree_frame(3))
      moreover have "G' \<inter> G = {}" using g(2) dj bG(1) by auto
      ultimately have "fieldsAt s' ((key, VRef a) # fs) ((key, tj') # kvs') (G' \<union> G)"
        using g(1) by (intro fields_cons)
      moreover have "G' \<union> G \<subseteq> insert (length s) F" using g(2) d(3) by auto
      ultimately show ?thesis using True d(1,2) v by auto
    next
      case False
      have m: "map_of fs key = Some (VRef a)" "map_of kvs' key = Some tj"
        using Cons.prems(2,3) d(1,2) False by simp_all
      from Cons.IH[OF r m] obtain F' where
        f: "fieldsAt s' fs (AList.update key tj' kvs') F'" "F' \<subseteq> insert (length s) G" by blast
      have "(key, VRef a) \<in> set fs" using m(1) by (rule map_of_SomeD)
      then have "VRef a \<in> snd ` set fs" by force
      then have "a \<in> G" using bG(2) by auto
      then have "a \<notin> F1" using dj by auto
      then have "\<forall>b \<in> F1. b < length s' \<and> s' ! b = s ! b" using b1(1) frame by auto
      with t have "treeAt s' v j F1" by (rule tree_frame(1))
      moreover have "F1 \<inter> F' = {}" using f(2) dj b1(1) by auto
      ultimately have "fieldsAt s' ((k0, v) # fs) ((k0, j) # AList.update key tj' kvs') (F1 \<union> F')"
        using f(1) by (intro fields_cons)
      moreover have "F1 \<union> F' \<subseteq> insert (length s) F" using f(2) d(3) by auto
      ultimately show ?thesis using False d(1,2) by auto
    qed
  qed
qed

lemma rewriteTargetStore_simulates:
  assumes "treeAt s cloned c F"
  shows "(\<forall>e. rewriteTarget key c = Inl e \<longrightarrow> rewriteTargetStore key cloned s = (Inl e, s)) \<and>
         (\<forall>c'. rewriteTarget key c = Inr c' \<longrightarrow>
            (\<exists>s' F'. rewriteTargetStore key cloned s = (Inr (), s') \<and> treeAt s' cloned c' F'))"
proof -
  have same: ?thesis
    if "rewriteTarget key c = Inr c" "rewriteTargetStore key cloned s = (Inr (), s)"
    using that assms by auto
  from assms show ?thesis
  proof (cases rule: treeAt.cases)
    case tree_null
    then show ?thesis by (simp add: rewriteTarget_def rewriteTargetStore_def)
  next
    case (tree_bool b)
    show ?thesis by (rule same) (simp_all add: tree_bool rewriteTarget_def rewriteTargetStore_def)
  next
    case (tree_num x)
    show ?thesis by (rule same) (simp_all add: tree_num rewriteTarget_def rewriteTargetStore_def)
  next
    case (tree_str x)
    show ?thesis by (rule same) (simp_all add: tree_str rewriteTarget_def rewriteTargetStore_def)
  next
    case (tree_arr a vs xs F0)
    show ?thesis
      by (rule same) (simp_all add: tree_arr rewriteTarget_def rewriteTargetStore_def cellAt_def)
  next
    case (tree_obj top fs ckvs F0)
    have eq: "cloned = VRef top" "c = JObj ckvs" and cell: "top < length s" "s ! top = ObjectCell fs"
      and fl: "fieldsAt s fs ckvs F0" and nt: "top \<notin> F0"
      using tree_obj by simp_all
    have gpS: "getPropV s (Some cloned) key = Inr (map_of fs key)"
      by (simp add: eq cellAt_def cell)
    have gpP: "getProp (Some c) key = Inr (map_of ckvs key)" by (simp add: eq)
    note lk = fields_lookup[OF fl, of key]
    show ?thesis
    proof (cases "map_of fs key")
      case None
      then have "map_of ckvs key = None" using lk by simp
      then show ?thesis using None
        by (intro same) (simp_all add: rewriteTarget_def rewriteTargetStore_def gpS gpP)
    next
      case (Some tv)
      then obtain tj G where tj: "map_of ckvs key = Some tj" "treeAt s tv tj G" "G \<subseteq> F0"
        using lk by blast
      have tt: "truthyV (Some tv) = truthy (Some tj)" using tj(2) by (rule truthy_tree)
      have rP: "rewriteTarget key c =
          (if \<not> truthy (Some tj) then Inr c
           else (case getProp (Some tj) ''files'' of
                   Inl e \<Rightarrow> Inl e
                 | Inr f \<Rightarrow>
                     if \<not> isArray f then Inr c
                     else (case mapE renameFile (elements f) of
                             Inl e \<Rightarrow> Inl e
                           | Inr fs \<Rightarrow> Inr (setFiles key (JArr fs) c))))"
        by (simp add: rewriteTarget_def gpP tj(1))
      have rS: "rewriteTargetStore key cloned s =
          (if \<not> truthy (Some tj) then (Inr (), s)
           else (case getPropV s (Some tv) ''files'' of
                   Inl e \<Rightarrow> (Inl e, s)
                 | Inr f \<Rightarrow>
                     if \<not> isArrayV s f then (Inr (), s)
                     else (case mapE renameFileV (elementsV s f) of
                             Inl e \<Rightarrow> (Inl e, s)
                           | Inr fs \<Rightarrow>
                               (Inr (), setFilesV (Some tv) (VRef (length s)) (s @ [ArrayCell fs])))))"
        by (simp add: rewriteTargetStore_def gpS Some tt)
      show ?thesis
      proof (cases "truthy (Some tj)")
        case False
        then show ?thesis by (intro same) (simp_all add: rP rS)
      next
        case True
        from tj(2) show ?thesis
        proof (cases rule: treeAt.cases)
          case tree_null
          then show ?thesis using True by simp
        next
          case (tree_bool b)
          show ?thesis by (rule same) (simp_all add: rP rS tree_bool)
        next
          case (tree_num x)
          show ?thesis by (rule same) (simp_all add: rP rS tree_num)
        next
          case (tree_str x)
          show ?thesis by (rule same) (simp_all add: rP rS tree_str)
        next
          case (tree_arr a vs xs G0)
          show ?thesis by (rule same) (simp_all add: rP rS tree_arr cellAt_def)
        next
          case (tree_obj a akvs jkvs G0)
          have eq2: "tv = VRef a" "tj = JObj jkvs" "G = insert a G0"
            and cell2: "a < length s" "s ! a = ObjectCell akvs"
            and fl2: "fieldsAt s akvs jkvs G0"
            using tree_obj by simp_all
          have gp2S: "getPropV s (Some tv) ''files'' = Inr (map_of akvs ''files'')"
            by (simp add: eq2 cellAt_def cell2)
          have gp2P: "getProp (Some tj) ''files'' = Inr (map_of jkvs ''files'')" by (simp add: eq2)
          note lk2 = fields_lookup[OF fl2, of "''files''"]
          show ?thesis
          proof (cases "map_of akvs ''files''")
            case None
            then have "map_of jkvs ''files'' = None" using lk2 by simp
            then show ?thesis using None True
              by (intro same) (simp_all add: rP rS gp2S gp2P)
          next
            case fsome: (Some fv)
            then obtain fj H where fj: "map_of jkvs ''files'' = Some fj" "treeAt s fv fj H"
              using lk2 by blast
            have rP2: "rewriteTarget key c =
                (if \<not> isArray (Some fj) then Inr c
                 else (case mapE renameFile (elements (Some fj)) of
                         Inl e \<Rightarrow> Inl e
                       | Inr fs \<Rightarrow> Inr (setFiles key (JArr fs) c)))"
              by (simp add: rP True gp2P fj(1))
            have rS2: "rewriteTargetStore key cloned s =
                (if \<not> isArrayV s (Some fv) then (Inr (), s)
                 else (case mapE renameFileV (elementsV s (Some fv)) of
                         Inl e \<Rightarrow> (Inl e, s)
                       | Inr fs \<Rightarrow>
                           (Inr (), setFilesV (Some tv) (VRef (length s)) (s @ [ArrayCell fs]))))"
              by (simp add: rS True gp2S fsome)
            from fj(2) show ?thesis
            proof (cases rule: treeAt.cases)
              case tree_null
              show ?thesis by (rule same) (simp_all add: rP2 rS2 tree_null)
            next
              case (tree_bool b)
              show ?thesis by (rule same) (simp_all add: rP2 rS2 tree_bool)
            next
              case (tree_num x)
              show ?thesis by (rule same) (simp_all add: rP2 rS2 tree_num)
            next
              case (tree_str x)
              show ?thesis by (rule same) (simp_all add: rP2 rS2 tree_str)
            next
              case (tree_obj b bkvs ykvs H0)
              show ?thesis by (rule same) (simp_all add: rP2 rS2 tree_obj cellAt_def)
            next
              case (tree_arr b es xs H0)
              have eq3: "fv = VRef b" "fj = JArr xs" and cell3: "b < length s" "s ! b = ArrayCell es"
                and tr3: "treesAt s es xs H0"
                using tree_arr by simp_all
              have rP3: "rewriteTarget key c =
                  (case mapE renameFile xs of
                     Inl e \<Rightarrow> Inl e
                   | Inr fs \<Rightarrow> Inr (setFiles key (JArr fs) c))"
                by (simp add: rP2 eq3)
              have rS3: "rewriteTargetStore key cloned s =
                  (case mapE renameFileV es of
                     Inl e \<Rightarrow> (Inl e, s)
                   | Inr fs \<Rightarrow>
                       (Inr (), setFilesV (Some tv) (VRef (length s)) (s @ [ArrayCell fs])))"
                by (simp add: rS2 eq3 cellAt_def cell3)
              note sm = strings_are_trees[OF tr3]
              show ?thesis
              proof (cases "mapE renameFile xs")
                case (Inl e)
                then have "mapE renameFileV es = Inl e" using sm by simp
                then show ?thesis using Inl by (simp add: rP3 rS3)
              next
                case (Inr ys)
                then obtain ws where ws: "mapE renameFileV es = Inr ws" "\<forall>s'. treesAt s' ws ys {}"
                  using sm by blast
                define s' where
                  "s' = (s @ [ArrayCell ws])[a := ObjectCell (AList.update ''files'' (VRef (length s)) akvs)]"
                define tj' where "tj' = JObj (AList.update ''files'' (JArr ys) jkvs)"
                have resS: "rewriteTargetStore key cloned s = (Inr (), s')"
                  using cell2(1) by (simp add: rS3 ws(1) eq2 cellAt_def cell2(2) nth_append s'_def)
                have "setFiles key (JArr ys) c = JObj (AList.update key tj' ckvs)"
                  by (simp add: eq tj(1) eq2 tj'_def)
                moreover have "rewriteTarget key c = Inr (setFiles key (JArr ys) c)"
                  by (simp add: rP3 Inr)
                ultimately have resP: "rewriteTarget key c = Inr (JObj (AList.update key tj' ckvs))"
                  by simp
                have frame: "\<forall>b. b < length s \<and> b \<noteq> a \<longrightarrow> b < length s' \<and> s' ! b = s ! b"
                  by (simp add: s'_def nth_append)
                have sub: "\<exists>G'. treeAt s' (VRef a) tj' G' \<and> G' \<subseteq> insert (length s) G1"
                  if "treeAt s (VRef a) tj G1" for G1
                  unfolding tj'_def
                  using that[unfolded eq2] cell2(2) s'_def ws(2)[rule_format, of s']
                  by (rule subtree_update)
                from top_update[OF fl Some[unfolded eq2] tj(1) frame sub] obtain F' where
                  f: "fieldsAt s' fs (AList.update key tj' ckvs) F'" "F' \<subseteq> insert (length s) F0"
                  by blast
                have "a \<in> G" using eq2(3) by simp
                then have "a \<noteq> top" using tj(3) nt by auto
                then have "s' ! top = ObjectCell fs" "top < length s'"
                  using cell by (simp_all add: s'_def nth_append)
                moreover have "top \<notin> F'" using f(2) nt cell(1) by auto
                ultimately have "treeAt s' (VRef top) (JObj (AList.update key tj' ckvs)) (insert top F')"
                  using f(1) by (intro treeAt_treesAt_fieldsAt.tree_obj)
                then show ?thesis using resS resP eq(1) by auto
              qed
            qed
          qed
        qed
      qed
    qed
  qed
qed

lemma forTargetsStore_simulates:
  assumes "treeAt s cloned c F"
  shows "(\<forall>e. forTargets keys c = Inl e \<longrightarrow> fst (forTargetsStore keys cloned s) = Inl e) \<and>
         (\<forall>c'. forTargets keys c = Inr c' \<longrightarrow>
            (\<exists>s' F'. forTargetsStore keys cloned s = (Inr (), s') \<and> treeAt s' cloned c' F'))"
  using assms
proof (induction keys arbitrary: s c F)
  case Nil
  then show ?case by auto
next
  case (Cons key keys)
  note st = rewriteTargetStore_simulates[OF Cons.prems, of key]
  show ?case
  proof (cases "rewriteTarget key c")
    case (Inl e)
    then have "rewriteTargetStore key cloned s = (Inl e, s)" using st by simp
    then show ?thesis using Inl by simp
  next
    case (Inr c1)
    then obtain s1 F1 where s1: "rewriteTargetStore key cloned s = (Inr (), s1)" "treeAt s1 cloned c1 F1"
      using st by blast
    have "forTargets (key # keys) c = forTargets keys c1" using Inr by simp
    moreover have "forTargetsStore (key # keys) cloned s = forTargetsStore keys cloned s1"
      using s1(1) by simp
    ultimately show ?thesis using Cons.IH[OF s1(2)] by simp
  qed
qed

lemma mapMetaToWebmStore_refines:
  assumes "readJson (length s) s v = Some j"
  shows "(\<forall>e. mapMetaToWebm j = Inl e \<longrightarrow> fst (mapMetaToWebmStore v s) = Inl e) \<and>
         (\<forall>j'. mapMetaToWebm j = Inr j' \<longrightarrow>
            (\<exists>v' s'. mapMetaToWebmStore v s = (Inr v', s') \<and>
               readJson (length s') s' v' = Some j'))"
proof -
  obtain cloned s1 where a: "alloc (deepClone j) s = (cloned, s1)"
    by (cases "alloc (deepClone j) s")
  from alloc_tree(1)[OF a] obtain F where t: "treeAt s1 cloned (deepClone j) F" by blast
  note sim = forTargetsStore_simulates[OF t, of targets]
  have m: "mapMetaToWebm j = forTargets targets (deepClone j)" by (simp add: mapMetaToWebm_def)
  have st: "mapMetaToWebmStore v s =
      (case forTargetsStore targets cloned s1 of
         (Inl e, s2) \<Rightarrow> (Inl e, s2)
       | (Inr u, s2) \<Rightarrow> (Inr cloned, s2))"
    by (simp add: mapMetaToWebmStore_def assms a)
  show ?thesis
  proof (intro conjI allI impI)
    fix e assume "mapMetaToWebm j = Inl e"
    then have "fst (forTargetsStore targets cloned s1) = Inl e" using sim m by simp
    then show "fst (mapMetaToWebmStore v s) = Inl e"
      by (cases "forTargetsStore targets cloned s1") (simp add: st)
  next
    fix j' assume "mapMetaToWebm j = Inr j'"
    then obtain s' F' where r: "forTargetsStore targets cloned s1 = (Inr (), s')" "treeAt s' cloned j' F'"
      using sim m by auto
    have "mapMetaToWebmStore v s = (Inr cloned, s')" by (simp add: st r(1))
    moreover have "readJson (length s') s' cloned = Some j'" using r(2) by (rule tree_readable)
    ultimately show "\<exists>v' s'. mapMetaToWebmStore v s = (Inr v', s') \<and>
               readJson (length s') s' v' = Some j'" by blast
  qed
qed

text \<open>
  Claim C5, as the code has it. Let the argument of \<open>mapMetaToWebm\<close> hold a metadata
  object in which every number is finite, none being negative zero, and whose recognised
  keys list only strings as file names. The call returns an object in which, under each of \<open>means\<close>, \<open>scales\<close>,
  \<open>quats\<close>, \<open>sh0\<close> and \<open>shN\<close> that holds an object with a \<open>files\<close> array, every name
  ending in \<open>.webp\<close> (in any case) has its last five characters replaced by \<open>.webm\<close>;
  every other key, every other field and the order of the properties are those of the
  input. The object returned is a deep copy: it lives at a new address, and no new cell
  refers to a cell that was in the store before the call. Every cell that was in the
  store before the call holds after it what it held before: the input object is not
  mutated.
\<close>

theorem mapMetaToWebm_rewrites:
  assumes "well_formed_meta kvs" and "finite_numbers (JObj kvs)"
    and "readJson (length s) s v = Some (JObj kvs)"
  shows "mapMetaToWebm (JObj kvs) = Inr (spec_meta kvs) \<and>
         (\<exists>v' s'. mapMetaToWebmStore v s = (Inr v', s') \<and>
            readJson (length s') s' v' = Some (spec_meta kvs) \<and>
            (\<forall>a \<in> refsOf v'. length s \<le> a) \<and> freshFrom (length s) s' \<and>
            take (length s) s' = s)"
proof -
  have "deepClone (JObj kvs) = JObj kvs" using assms(2) by (rule deepClone_finite)
  then have pure: "mapMetaToWebm (JObj kvs) = Inr (spec_meta kvs)"
    using forTargets_well_formed[OF assms(1)] by (simp only: mapMetaToWebm_def)
  from mapMetaToWebmStore_refines[OF assms(3)] pure obtain v' s' where
    r: "mapMetaToWebmStore v s = (Inr v', s')" "readJson (length s') s' v' = Some (spec_meta kvs)"
    by blast
  from mapMetaToWebmStore_copy[OF r(1)] have
    "take (length s) s' = s" "freshFrom (length s) s'" "\<forall>a \<in> refsOf v'. length s \<le> a"
    by simp_all
  then show ?thesis using pure r by blast
qed

theorem mapMetaToWebm_rewrites_witness:
  "well_formed_meta exampleMeta \<and> finite_numbers (JObj exampleMeta) \<and>
   readJson (length exampleHeap) exampleHeap (VRef 6) = Some (JObj exampleMeta) \<and>
   mapMetaToWebm (JObj exampleMeta) =
     Inr (JObj
       [(''means'', JObj [(''shape'', JNum (Finite 3)),
                          (''files'', JArr [JStr ''means_l.webm'', JStr ''means_u.webm''])]),
        (''extra'', JObj [(''files'', JArr [JStr ''keep.webp''])]),
        (''sh0'', JObj [(''files'', JArr [JStr ''sh0.png''])])]) \<and>
   (\<exists>v' s'. mapMetaToWebmStore (VRef 6) exampleHeap = (Inr v', s') \<and>
      readJson (length s') s' v' =
        Some (JObj
          [(''means'', JObj [(''shape'', JNum (Finite 3)),
                             (''files'', JArr [JStr ''means_l.webm'', JStr ''means_u.webm''])]),
           (''extra'', JObj [(''files'', JArr [JStr ''keep.webp''])]),
           (''sh0'', JObj [(''files'', JArr [JStr ''sh0.png''])])]) \<and>
      take (length exampleHeap) s' = exampleHeap)"
proof -
  have wf: "well_formed_meta exampleMeta"
    by (simp add: exampleMeta_def well_formed_meta_def files_are_names_def targets_def)
  have fn: "finite_numbers (JObj exampleMeta)" by (simp add: exampleMeta_def)
  have rd: "readJson (length exampleHeap) exampleHeap (VRef 6) = Some (JObj exampleMeta)"
    by (simp add: exampleHeap_def exampleMeta_def eval_nat_numeral)
  have sp: "spec_meta exampleMeta =
      JObj
       [(''means'', JObj [(''shape'', JNum (Finite 3)),
                          (''files'', JArr [JStr ''means_l.webm'', JStr ''means_u.webm''])]),
        (''extra'', JObj [(''files'', JArr [JStr ''keep.webp''])]),
        (''sh0'', JObj [(''files'', JArr [JStr ''sh0.png''])])]"
    by (simp add: exampleMeta_def spec_meta_def spec_attribute_def spec_rename_def targets_def
        replace_webp_ext_def endsWith_def toLowerCase_def lower_char_def)
  from mapMetaToWebm_rewrites[OF wf fn rd] show ?thesis
    unfolding sp using wf fn rd by blast
qed

text \<open>
  The store of the example after the call: the copy is at address 13, and the two file
  lists the loop made are the cells 14 and 15.
\<close>

lemma mapMetaToWebmStore_example:
  "mapMetaToWebmStore (VRef 6) exampleHeap =
     (Inr (VRef 13),
      exampleHeap @
      [ArrayCell [VStr ''means_l.webp'', VStr ''means_u.WEBP''],
       ObjectCell [(''shape'', VNum (Finite 3)), (''files'', VRef 14)],
       ArrayCell [VStr ''keep.webp''],
       ObjectCell [(''files'', VRef 9)],
       ArrayCell [VStr ''sh0.png''],
       ObjectCell [(''files'', VRef 15)],
       ObjectCell [(''means'', VRef 8), (''extra'', VRef 10), (''sh0'', VRef 12)],
       ArrayCell [VStr ''means_l.webm'', VStr ''means_u.webm''],
       ArrayCell [VStr ''sh0.png'']])"
  by code_simp

text \<open>
  The claim as stated fails on a file list that holds something other than a string:
  \<open>fileName.replace\<close> does not exist there, and the function throws instead of returning.
  It fails as well on a number that is not finite, which the copy replaces by \<open>null\<close>
  (\<open>mapMetaToWebm_loses_infinity\<close>).
\<close>

theorem mapMetaToWebm_throws_on_non_string:
  "mapMetaToWebm (JObj [(''means'', JObj [(''files'', JArr [JNum (Finite 1)])])]) =
     Inl (TypeError ''fileName.replace is not a function'')"
  by (simp add: mapMetaToWebm_def targets_def rewriteTarget_def)

section \<open>Verification: the source catalog\<close>

lemma mset_insertSorted: "mset (insertSorted cmp x xs) = add_mset x (mset xs)"
  by (induction xs) auto

lemma mset_sortBy: "mset (sortBy cmp xs) = mset xs"
  by (induction xs) (auto simp: sortBy_def mset_insertSorted)

lemma set_insertSorted: "set (insertSorted cmp x xs) = insert x (set xs)"
  by (induction xs) auto

lemma sorted_insertSorted:
  assumes "consistentComparator cmp" "sorted_wrt (\<lambda>a b. cmp a b \<le> 0) xs"
  shows "sorted_wrt (\<lambda>a b. cmp a b \<le> 0) (insertSorted cmp x xs)"
  using assms(2)
proof (induction xs)
  case Nil
  then show ?case by simp
next
  case (Cons y ys)
  have tot: "\<And>a b. cmp a b \<le> 0 \<or> cmp b a \<le> 0"
    and tr: "\<And>a b c. cmp a b \<le> 0 \<Longrightarrow> cmp b c \<le> 0 \<Longrightarrow> cmp a c \<le> 0"
    using assms(1) unfolding consistentComparator_def by blast+
  show ?case
  proof (cases "cmp x y \<le> 0")
    case True
    then have "\<forall>z \<in> set ys. cmp x z \<le> 0" using Cons.prems tr by auto
    then show ?thesis using True Cons.prems by simp
  next
    case False
    then have "cmp y x \<le> 0" using tot[of x y] by simp
    then show ?thesis using False Cons by (auto simp: set_insertSorted)
  qed
qed

lemma sorted_sortBy:
  "consistentComparator cmp \<Longrightarrow> sorted_wrt (\<lambda>a b. cmp a b \<le> 0) (sortBy cmp xs)"
  by (induction xs) (auto simp: sortBy_def intro: sorted_insertSorted)

lemma uniqueDirFrom_spec:
  "\<not> pathExists (uniqueDirFrom t base cand suffix) t \<and>
   (if pathExists cand t
    then \<exists>k\<ge>suffix. uniqueDirFrom t base cand suffix = withSuffix base k \<and>
           (\<forall>j. suffix \<le> j \<and> j < k \<longrightarrow> pathExists (withSuffix base j) t)
    else uniqueDirFrom t base cand suffix = cand)"
proof (induction t base cand suffix rule: uniqueDirFrom.induct)
  case (1 t baseDir candidate suffix)
  show ?case
  proof (cases "pathExists candidate t")
    case False
    then have "uniqueDirFrom t baseDir candidate suffix = candidate"
      by (subst uniqueDirFrom.simps) simp
    then show ?thesis using False by simp
  next
    case True
    let ?next = "uniqueDirFrom t baseDir (withSuffix baseDir suffix) (suffix + 1)"
    have unf: "uniqueDirFrom t baseDir candidate suffix = ?next"
      using True by (subst uniqueDirFrom.simps) simp
    note ih = "1.IH"[OF True]
    have fresh: "\<not> pathExists ?next t" using ih by blast
    show ?thesis
    proof (cases "pathExists (withSuffix baseDir suffix) t")
      case False
      then have "?next = withSuffix baseDir suffix" using ih by simp
      then have "suffix \<le> suffix \<and> ?next = withSuffix baseDir suffix \<and>
          (\<forall>j. suffix \<le> j \<and> j < suffix \<longrightarrow> pathExists (withSuffix baseDir j) t)" by auto
      then have "\<exists>k\<ge>suffix. ?next = withSuffix baseDir k \<and>
          (\<forall>j. suffix \<le> j \<and> j < k \<longrightarrow> pathExists (withSuffix baseDir j) t)" by blast
      then show ?thesis using True fresh unfolding unf by simp
    next
      case ex: True
      then obtain k where k: "suffix + 1 \<le> k" "?next = withSuffix baseDir k"
        "\<forall>j. suffix + 1 \<le> j \<and> j < k \<longrightarrow> pathExists (withSuffix baseDir j) t"
        using ih by auto
      have "\<forall>j. suffix \<le> j \<and> j < k \<longrightarrow> pathExists (withSuffix baseDir j) t"
      proof (intro allI impI)
        fix j assume "suffix \<le> j \<and> j < k"
        then show "pathExists (withSuffix baseDir j) t"
          using ex k(3) by (cases "j = suffix") auto
      qed
      then have "suffix \<le> k \<and> ?next = withSuffix baseDir k \<and>
          (\<forall>j. suffix \<le> j \<and> j < k \<longrightarrow> pathExists (withSuffix baseDir j) t)"
        using k(1,2) by simp
      then have "\<exists>k\<ge>suffix. ?next = withSuffix baseDir k \<and>
          (\<forall>j. suffix \<le> j \<and> j < k \<longrightarrow> pathExists (withSuffix baseDir j) t)" by blast
      then show ?thesis using True fresh unfolding unf by simp
    qed
  qed
qed

lemma compareCodeUnits_total: "compareCodeUnits a b \<le> 0 \<or> compareCodeUnits b a \<le> 0"
proof (induction a b rule: compareCodeUnits.induct)
  case (4 x xs y ys)
  consider "(of_char x :: nat) < of_char y" | "(of_char y :: nat) < of_char x"
    | "(of_char x :: nat) = of_char y" by linarith
  then show ?case
  proof cases
    case 1
    then show ?thesis by simp
  next
    case 2
    then show ?thesis by simp
  next
    case 3
    then show ?thesis using 4 by simp
  qed
qed simp_all

lemma compareCodeUnits_trans:
  "compareCodeUnits a b \<le> 0 \<Longrightarrow> compareCodeUnits b c \<le> 0 \<Longrightarrow> compareCodeUnits a c \<le> 0"
proof (induction a b arbitrary: c rule: compareCodeUnits.induct)
  case 1
  then show ?case by simp
next
  case (2 y ys)
  then show ?case by (cases c) simp_all
next
  case (3 x xs)
  then show ?case by simp
next
  case (4 x xs y ys)
  from "4.prems"(2) obtain z zs where c: "c = z # zs" by (cases c) simp_all
  have xy: "(of_char x :: nat) \<le> of_char y"
    using "4.prems"(1) by (simp split: if_splits)
  have yz: "(of_char y :: nat) \<le> of_char z"
    using "4.prems"(2) c by (simp split: if_splits)
  show ?case
  proof (cases "(of_char x :: nat) < of_char z")
    case True
    then show ?thesis using c by simp
  next
    case False
    then have e: "(of_char x :: nat) = of_char y" "(of_char y :: nat) = of_char z"
      using xy yz by linarith+
    have "compareCodeUnits xs ys \<le> 0" using "4.prems"(1) e by simp
    moreover have "compareCodeUnits ys zs \<le> 0" using "4.prems"(2) c e by simp
    ultimately have "compareCodeUnits xs zs \<le> 0" using "4.IH"[of zs] e by simp
    then show ?thesis using c e by simp
  qed
qed

lemma compareCodeUnits_consistent: "consistentComparator compareCodeUnits"
  unfolding consistentComparator_def
  using compareCodeUnits_total compareCodeUnits_trans by blast

lemma readdir_Dir: "lookup dir (fsys w) = Some (Dir es) \<Longrightarrow> readdir dir w = (Inr es, w)"
  by (simp add: readdir_def)

lemma consistent_on_paths:
  "consistentComparator cmp \<Longrightarrow> consistentComparator (\<lambda>a b. cmp (pathString a) (pathString b))"
  unfolding consistentComparator_def by blast

text \<open>
  Claim C9. \<open>listPlyFiles\<close> returns the paths of the regular files of the input
  directory whose names end in \<open>.ply\<close> (in any case), each once, sorted by the order
  \<open>localeCompare\<close> gives their path strings. \<open>uniqueDir\<close> always returns, and the
  path it returns does not exist; it is the base directory when that is free, and
  otherwise the base with the smallest suffix \<open>_k\<close>, \<open>k = 1, 2, ...\<close>, that is free.
\<close>

theorem catalog_sorted_and_directory_fresh:
  assumes "consistentComparator (localeCompare h)"
    and "lookup inputDir (fsys w) = Some (Dir entries)"
  shows "(\<exists>files. listPlyFiles h inputDir w = (Inr files, w) \<and>
            sorted_wrt (\<lambda>a b. localeCompare h (pathString a) (pathString b) \<le> 0) files \<and>
            mset files =
              mset (map (\<lambda>entry. inputDir @ [fst entry])
                (filter (\<lambda>entry. isFile (snd entry) \<and> endsWith (toLowerCase (fst entry)) ''.ply'')
                   entries))) \<and>
         (\<exists>dir. uniqueDir baseDir w = (Inr dir, w) \<and> \<not> pathExists dir (fsys w) \<and>
            (if pathExists baseDir (fsys w)
             then \<exists>k\<ge>1. dir = withSuffix baseDir k \<and>
                    (\<forall>j. 1 \<le> j \<and> j < k \<longrightarrow> pathExists (withSuffix baseDir j) (fsys w))
             else dir = baseDir))"
proof
  let ?cmp = "\<lambda>a b. localeCompare h (pathString a) (pathString b)"
  let ?found = "map (\<lambda>entry. inputDir @ [fst entry])
      (filter (\<lambda>entry. isFile (snd entry) \<and> endsWith (toLowerCase (fst entry)) ''.ply'') entries)"
  have "listPlyFiles h inputDir w = (Inr (sortBy ?cmp ?found), w)"
    using readdir_Dir[OF assms(2)] by (simp add: listPlyFiles_def bindIO_def returnIO_def)
  moreover have "sorted_wrt (\<lambda>a b. ?cmp a b \<le> 0) (sortBy ?cmp ?found)"
    by (rule sorted_sortBy[OF consistent_on_paths[OF assms(1)]])
  moreover have "mset (sortBy ?cmp ?found) = mset ?found" by (rule mset_sortBy)
  ultimately show "\<exists>files. listPlyFiles h inputDir w = (Inr files, w) \<and>
      sorted_wrt (\<lambda>a b. ?cmp a b \<le> 0) files \<and> mset files = mset ?found"
    by blast
next
  show "\<exists>dir. uniqueDir baseDir w = (Inr dir, w) \<and> \<not> pathExists dir (fsys w) \<and>
            (if pathExists baseDir (fsys w)
             then \<exists>k\<ge>1. dir = withSuffix baseDir k \<and>
                    (\<forall>j. 1 \<le> j \<and> j < k \<longrightarrow> pathExists (withSuffix baseDir j) (fsys w))
             else dir = baseDir)"
    using uniqueDirFrom_spec[of "fsys w" baseDir baseDir 1] by (simp add: uniqueDir_def cong: if_cong)
qed

lemma catalogWorld_in:
  "lookup [''in''] (fsys catalogWorld) =
     Some (Dir [(''b.ply'', File ''b''), (''a.PLY'', File ''a''),
                (''notes.txt'', File ''n''), (''c.ply'', Dir [])])"
  by (simp add: catalogWorld_def)

theorem catalog_sorted_and_directory_fresh_witness:
  "consistentComparator (localeCompare quietHost) \<and>
   listPlyFiles quietHost [''in''] catalogWorld =
     (Inr [[''in'', ''a.PLY''], [''in'', ''b.ply'']], catalogWorld) \<and>
   sorted_wrt (\<lambda>a b. localeCompare quietHost (pathString a) (pathString b) \<le> 0)
     [[''in'', ''a.PLY''], [''in'', ''b.ply'']] \<and>
   uniqueDir [''out'', ''sog'', ''a''] catalogWorld =
     (Inr [''out'', ''sog'', ''a_2''], catalogWorld) \<and>
   \<not> pathExists [''out'', ''sog'', ''a_2''] (fsys catalogWorld)"
proof -
  have h: "consistentComparator (localeCompare quietHost)"
    using compareCodeUnits_consistent by (simp add: quietHost_def exampleHost_def)
  have ply: "listPlyFiles quietHost [''in''] catalogWorld =
     (Inr [[''in'', ''a.PLY''], [''in'', ''b.ply'']], catalogWorld)"
    by code_simp
  have dir: "uniqueDir [''out'', ''sog'', ''a''] catalogWorld =
     (Inr [''out'', ''sog'', ''a_2''], catalogWorld)"
    by code_simp
  from catalog_sorted_and_directory_fresh[OF h catalogWorld_in, of "[''out'', ''sog'', ''a'']"]
  have "sorted_wrt (\<lambda>a b. localeCompare quietHost (pathString a) (pathString b) \<le> 0)
          [[''in'', ''a.PLY''], [''in'', ''b.ply'']] \<and>
        \<not> pathExists [''out'', ''sog'', ''a_2''] (fsys catalogWorld)"
    unfolding ply dir by blast
  then show ?thesis using h ply dir by blast
qed

section \<open>Verification: the frames of a sequence\<close>

lemma lookup_putNode_child:
  "lookup d t = Some (Dir es) \<Longrightarrow> putNode (d @ [c]) n t = Some t' \<Longrightarrow>
   lookup d t' = Some (Dir (AList.update c n es))"
proof (induction d arbitrary: t t')
  case Nil
  then show ?case by simp
next
  case (Cons a d)
  then obtain fs where t: "t = Dir fs" by (cases t) auto
  then obtain m where m: "map_of fs a = Some m" and lm: "lookup d m = Some (Dir es)"
    using Cons.prems(1) by (auto split: option.splits)
  have "d @ [c] \<noteq> []" by simp
  then obtain x xs where dx: "d @ [c] = x # xs" by (cases "d @ [c]") auto
  then obtain m' where pm: "putNode (d @ [c]) n m = Some m'" and t': "t' = Dir (AList.update a m' fs)"
    using Cons.prems(2) t m by (auto split: option.splits)
  have "lookup d m' = Some (Dir (AList.update c n es))" using Cons.IH[OF lm pm] .
  then show ?case using t' by (simp add: update_conv')
qed

lemma lookup_mkdirp_child:
  "lookup d t = Some (Dir es) \<Longrightarrow> mkdirp (d @ [c]) t = Inr t' \<Longrightarrow>
   \<exists>n. lookup d t' = Some (Dir (AList.update c n es))"
proof (induction d arbitrary: t t')
  case Nil
  then show ?case by (auto split: option.splits sum.splits)
next
  case (Cons a d)
  then obtain fs where t: "t = Dir fs" by (cases t) auto
  then obtain m where m: "map_of fs a = Some m" and lm: "lookup d m = Some (Dir es)"
    using Cons.prems(1) by (auto split: option.splits)
  obtain m' where pm: "mkdirp (d @ [c]) m = Inr m'" and t': "t' = Dir (AList.update a m' fs)"
    using Cons.prems(2) t m by (auto split: sum.splits)
  from Cons.IH[OF lm pm] obtain n where "lookup d m' = Some (Dir (AList.update c n es))" by blast
  then show ?case using t' by (auto simp: update_conv')
qed

lemma filter_update_other:
  "(\<And>v. \<not> P (c, v)) \<Longrightarrow> filter P (AList.update c n es) = filter P es"
  by (induction es) auto

lemma png_is_no_frame: "\<not> isFrame (''_png'', v)"
  by (simp add: isFrame_def endsWith_def toLowerCase_def lower_char_def)

lemma listSequenceFrames_Dir:
  "lookup sequenceDir (fsys w) = Some (Dir es) \<Longrightarrow>
   listSequenceFrames h sequenceDir w =
     (Inr (sortBy (localeCompare h) (map fst (filter isFrame es))), w)"
  by (simp add: listSequenceFrames_def readdir_def bindIO_def returnIO_def isFrame_def[abs_def])

lemma inv_bindIO:
  assumes "\<And>w. I w \<Longrightarrow> I (snd (m w))" "\<And>x w. I w \<Longrightarrow> I (snd (f x w))" "I w"
  shows "I (snd (bindIO m f w))"
proof (cases "m w")
  case (Pair r w1)
  have "I w1" using assms(1)[OF assms(3)] Pair by simp
  then show ?thesis using Pair assms(2)[of w1] by (cases r) (simp_all add: bindIO_def)
qed

lemma inv_forIO:
  assumes "\<And>x w. I w \<Longrightarrow> I (snd (f x w))" "I w"
  shows "I (snd (forIO xs f w))"
  using assms(2)
proof (induction xs arbitrary: w)
  case Nil
  then show ?case by (simp add: returnIO_def)
next
  case (Cons x xs)
  show ?case unfolding forIO.simps
    by (rule inv_bindIO[where I = I]) (use assms(1) Cons in auto)
qed

lemma sameFrames_ensureDir:
  assumes "sameFrames sequenceDir entries w"
  shows "sameFrames sequenceDir entries (snd (ensureDir (sequenceDir @ [''_png'']) w))"
proof (cases "mkdirp (sequenceDir @ [''_png'']) (fsys w)")
  case (Inl e)
  then show ?thesis using assms by (simp add: ensureDir_def)
next
  case (Inr t')
  from assms obtain es where es: "lookup sequenceDir (fsys w) = Some (Dir es)"
    "filter isFrame es = filter isFrame entries" unfolding sameFrames_def by blast
  from lookup_mkdirp_child[OF es(1) Inr] obtain n where
    "lookup sequenceDir t' = Some (Dir (AList.update ''_png'' n es))" by blast
  moreover have "filter isFrame (AList.update ''_png'' n es) = filter isFrame es"
    by (rule filter_update_other) (rule png_is_no_frame)
  ultimately show ?thesis using Inr es(2) by (simp add: ensureDir_def sameFrames_def)
qed

lemma sameFrames_spawn:
  assumes "confinedTo h (sequenceDir @ [''_png''])" "sameFrames sequenceDir entries w"
  shows "sameFrames sequenceDir entries (snd (spawnAndWait h failure exec args w))"
proof -
  let ?t = "snd (spawnProcess h exec args (fsys w))"
  have fs: "fsys (snd (spawnAndWait h failure exec args w)) = ?t"
    by (simp add: spawnAndWait_def split: prod.splits)
  from assms(2) obtain es where es: "lookup sequenceDir (fsys w) = Some (Dir es)"
    "filter isFrame es = filter isFrame entries" unfolding sameFrames_def by blast
  from assms(1) consider "?t = fsys w" | n where "putNode (sequenceDir @ [''_png'']) n (fsys w) = Some ?t"
    unfolding confinedTo_def by blast
  then show ?thesis
  proof cases
    case 1
    then show ?thesis using es fs by (simp add: sameFrames_def)
  next
    case 2
    have "lookup sequenceDir ?t = Some (Dir (AList.update ''_png'' n es))"
      by (rule lookup_putNode_child[OF es(1) 2])
    moreover have "filter isFrame (AList.update ''_png'' n es) = filter isFrame es"
      by (rule filter_update_other) (rule png_is_no_frame)
    ultimately show ?thesis using es(2) fs by (simp add: sameFrames_def)
  qed
qed

lemma sameFrames_listing:
  "sameFrames sequenceDir entries w \<Longrightarrow> snd (listSequenceFrames h sequenceDir w) = w"
  by (auto simp: sameFrames_def listSequenceFrames_Dir)

lemma sameFrames_convert:
  assumes "confinedTo h (sequenceDir @ [''_png''])" "sameFrames sequenceDir entries w"
  shows "sameFrames sequenceDir entries
     (snd (convertSequenceToPng h sequenceDir (sequenceDir @ [''_png'']) dwebpPath w))"
  unfolding convertSequenceToPng_def
proof (rule inv_bindIO[where I = "sameFrames sequenceDir entries"])
  show "sameFrames sequenceDir entries w" by (rule assms(2))
next
  fix w assume "sameFrames sequenceDir entries w"
  then show "sameFrames sequenceDir entries (snd (ensureDir (sequenceDir @ [''_png'']) w))"
    by (rule sameFrames_ensureDir)
next
  fix x :: unit and w assume w: "sameFrames sequenceDir entries w"
  show "sameFrames sequenceDir entries
     (snd (bindIO (listSequenceFrames h sequenceDir)
        (\<lambda>frameFiles. forIO frameFiles (\<lambda>fileName.
           let srcPath = sequenceDir @ [fileName];
               targetPath = (sequenceDir @ [''_png'']) @ [replace_webp_ext ''.png'' fileName]
           in spawnAndWait h ''dwebp failed with exit code '' (pathString dwebpPath)
                [pathString srcPath, ''-o'', pathString targetPath])) w))"
  proof (rule inv_bindIO[where I = "sameFrames sequenceDir entries"])
    show "sameFrames sequenceDir entries w" by (rule w)
  next
    fix w assume "sameFrames sequenceDir entries w"
    then show "sameFrames sequenceDir entries (snd (listSequenceFrames h sequenceDir w))"
      by (simp add: sameFrames_listing)
  next
    fix frameFiles w assume a: "sameFrames sequenceDir entries w"
    show "sameFrames sequenceDir entries (snd (forIO frameFiles (\<lambda>fileName.
           let srcPath = sequenceDir @ [fileName];
               targetPath = (sequenceDir @ [''_png'']) @ [replace_webp_ext ''.png'' fileName]
           in spawnAndWait h ''dwebp failed with exit code '' (pathString dwebpPath)
                [pathString srcPath, ''-o'', pathString targetPath]) w))"
      by (rule inv_forIO[where I = "sameFrames sequenceDir entries", OF _ a])
         (simp add: Let_def sameFrames_spawn[OF assms(1)])
  qed
qed

text \<open>
  Claim C10. The frame list of a sequence directory, which both the zero-frame test of
  the encode loop and the fallback transcode read through \<open>listSequenceFrames\<close>, is
  made of the names of the regular files directly in the directory that end in
  \<open>.webp\<close> (in any case), each once, sorted by \<open>localeCompare\<close>. Whatever stands at
  \<open>_png\<close> inside the directory is not counted: putting any node there leaves the list
  what it was, and so does a run of \<open>convertSequenceToPng\<close>, finished or failed, whose
  transcoder writes below \<open>_png\<close> only.
\<close>

theorem sequence_frames_ignore_fallback_output:
  assumes "consistentComparator (localeCompare h)"
    and "lookup sequenceDir (fsys w) = Some (Dir entries)"
  shows "\<exists>frames.
      listSequenceFrames h sequenceDir w = (Inr frames, w) \<and>
      sorted_wrt (\<lambda>a b. localeCompare h a b \<le> 0) frames \<and>
      mset frames = mset (map fst (filter isFrame entries)) \<and>
      (\<forall>n t'. putNode (sequenceDir @ [''_png'']) n (fsys w) = Some t' \<longrightarrow>
          listSequenceFrames h sequenceDir (w\<lparr>fsys := t'\<rparr>) = (Inr frames, w\<lparr>fsys := t'\<rparr>)) \<and>
      (confinedTo h (sequenceDir @ [''_png'']) \<longrightarrow>
          fst (listSequenceFrames h sequenceDir
                 (snd (convertSequenceToPng h sequenceDir (sequenceDir @ [''_png'']) dwebpPath w))) =
          Inr frames)"
proof -
  let ?frames = "sortBy (localeCompare h) (map fst (filter isFrame entries))"
  have l: "listSequenceFrames h sequenceDir w = (Inr ?frames, w)"
    by (rule listSequenceFrames_Dir[OF assms(2)])
  have s: "sorted_wrt (\<lambda>a b. localeCompare h a b \<le> 0) ?frames"
    by (rule sorted_sortBy[OF assms(1)])
  have m: "mset ?frames = mset (map fst (filter isFrame entries))" by (rule mset_sortBy)
  have p: "listSequenceFrames h sequenceDir (w\<lparr>fsys := t'\<rparr>) = (Inr ?frames, w\<lparr>fsys := t'\<rparr>)"
    if "putNode (sequenceDir @ [''_png'']) n (fsys w) = Some t'" for n t'
  proof -
    have "lookup sequenceDir t' = Some (Dir (AList.update ''_png'' n entries))"
      by (rule lookup_putNode_child[OF assms(2) that])
    then have "listSequenceFrames h sequenceDir (w\<lparr>fsys := t'\<rparr>) =
        (Inr (sortBy (localeCompare h) (map fst (filter isFrame (AList.update ''_png'' n entries)))),
         w\<lparr>fsys := t'\<rparr>)"
      by (intro listSequenceFrames_Dir) simp
    moreover have "filter isFrame (AList.update ''_png'' n entries) = filter isFrame entries"
      by (rule filter_update_other) (rule png_is_no_frame)
    ultimately show ?thesis by simp
  qed
  have c: "fst (listSequenceFrames h sequenceDir
                 (snd (convertSequenceToPng h sequenceDir (sequenceDir @ [''_png'']) dwebpPath w))) =
          Inr ?frames" if conf: "confinedTo h (sequenceDir @ [''_png''])"
  proof -
    have "sameFrames sequenceDir entries w" using assms(2) by (auto simp: sameFrames_def)
    from sameFrames_convert[OF conf this, of dwebpPath] obtain es where
      "lookup sequenceDir (fsys (snd (convertSequenceToPng h sequenceDir (sequenceDir @ [''_png'']) dwebpPath w))) = Some (Dir es)"
      "filter isFrame es = filter isFrame entries"
      unfolding sameFrames_def by blast
    then show ?thesis by (simp add: listSequenceFrames_Dir)
  qed
  show ?thesis using l s m p c by blast
qed

lemma pngHost_confined: "confinedTo pngHost [''seq'', ''means'', ''_png'']"
  by (auto simp: confinedTo_def pngHost_def exampleHost_def split: option.splits)

lemma pngHost_consistent: "consistentComparator (localeCompare pngHost)"
  using compareCodeUnits_consistent by (simp add: pngHost_def exampleHost_def)

lemma sequenceWorld_means:
  "lookup [''seq'', ''means''] (fsys sequenceWorld) =
     Some (Dir [(''frame_00001.WEBP'', File ''b''), (''frame_00000.webp'', File ''a''),
                (''notes.txt'', File ''n''), (''x.webp'', Dir [])])"
  by (simp add: sequenceWorld_def)

theorem sequence_frames_ignore_fallback_output_witness:
  "listSequenceFrames pngHost [''seq'', ''means''] sequenceWorld =
     (Inr [''frame_00000.webp'', ''frame_00001.WEBP''], sequenceWorld) \<and>
   pathExists [''seq'', ''means'', ''_png'', ''frame_00000.png'']
     (fsys (snd (convertSequenceToPng pngHost [''seq'', ''means''] [''seq'', ''means'', ''_png'']
                   [''usr'', ''bin'', ''dwebp''] sequenceWorld))) \<and>
   fst (listSequenceFrames pngHost [''seq'', ''means'']
          (snd (convertSequenceToPng pngHost [''seq'', ''means''] [''seq'', ''means'', ''_png'']
                  [''usr'', ''bin'', ''dwebp''] sequenceWorld))) =
     Inr [''frame_00000.webp'', ''frame_00001.WEBP'']"
proof -
  have ev: "listSequenceFrames pngHost [''seq'', ''means''] sequenceWorld =
     (Inr [''frame_00000.webp'', ''frame_00001.WEBP''], sequenceWorld)"
    by code_simp
  have left: "pathExists [''seq'', ''means'', ''_png'', ''frame_00000.png'']
     (fsys (snd (convertSequenceToPng pngHost [''seq'', ''means''] [''seq'', ''means'', ''_png'']
                   [''usr'', ''bin'', ''dwebp''] sequenceWorld)))"
    by code_simp
  from sequence_frames_ignore_fallback_output[OF pngHost_consistent sequenceWorld_means,
      of "[''usr'', ''bin'', ''dwebp'']"]
  obtain frames where
    f: "listSequenceFrames pngHost [''seq'', ''means''] sequenceWorld = (Inr frames, sequenceWorld)"
    and c: "confinedTo pngHost ([''seq'', ''means''] @ [''_png'']) \<longrightarrow>
      fst (listSequenceFrames pngHost [''seq'', ''means'']
            (snd (convertSequenceToPng pngHost [''seq'', ''means''] ([''seq'', ''means''] @ [''_png''])
                    [''usr'', ''bin'', ''dwebp''] sequenceWorld))) = Inr frames"
    by blast
  have "frames = [''frame_00000.webp'', ''frame_00001.WEBP'']" using f ev by simp
  then show ?thesis using ev left c pngHost_confined by simp
qed

section \<open>Verification: the skip of an empty sequence\<close>

text \<open>
  Claim C8. When the encode loop reaches a sequence directory none of whose entries is a
  frame, the iteration ends at once without an error and leaves the world exactly as it
  was: no video is written, nothing is started or printed, and the loop goes on as if the
  directory were not in its list. The manifest, computed afterwards from that world, is
  what it would be without the skip.
\<close>

theorem empty_sequence_is_skipped:
  assumes "lookup (sequenceRoot @ [sequenceName]) (fsys w) = Some (Dir entries)"
    and "filter isFrame entries = []"
  shows "encodeOne h opts sequenceRoot videoRoot dwebpPath sequenceName w = (Inr (), w) \<and>
         forIO (sequenceName # rest) (encodeOne h opts sequenceRoot videoRoot dwebpPath) w =
           forIO rest (encodeOne h opts sequenceRoot videoRoot dwebpPath) w \<and>
         freshSplats h items frames
             (snd (encodeOne h opts sequenceRoot videoRoot dwebpPath sequenceName w)) =
           freshSplats h items frames w \<and>
         rebuildSplats h sogRoot
             (snd (encodeOne h opts sequenceRoot videoRoot dwebpPath sequenceName w)) =
           rebuildSplats h sogRoot w"
proof -
  have "listSequenceFrames h (sequenceRoot @ [sequenceName]) w = (Inr [], w)"
    using listSequenceFrames_Dir[OF assms(1), of h] assms(2) by (simp add: sortBy_def)
  then have one: "encodeOne h opts sequenceRoot videoRoot dwebpPath sequenceName w = (Inr (), w)"
    by (simp add: encodeOne_def bindIO_def returnIO_def Let_def)
  then show ?thesis by (simp add: bindIO_def)
qed

lemma sequenceWorld_empty:
  "lookup ([''seq''] @ [''empty'']) (fsys sequenceWorld) =
     Some (Dir [(''_png'', Dir [(''frame_00000.png'', File ''p'')]), (''readme.txt'', File ''r'')])"
  by (simp add: sequenceWorld_def)

theorem empty_sequence_is_skipped_witness:
  "filter isFrame [(''_png'', Dir [(''frame_00000.png'', File ''p'')]), (''readme.txt'', File ''r'')] = [] \<and>
   encodeOne pngHost exampleOptions [''seq''] [''videos''] None ''empty'' sequenceWorld =
     (Inr (), sequenceWorld) \<and>
   forIO [''empty''] (encodeOne pngHost exampleOptions [''seq''] [''videos''] None) sequenceWorld =
     (Inr (), sequenceWorld)"
proof -
  have e: "filter isFrame [(''_png'', Dir [(''frame_00000.png'', File ''p'')]), (''readme.txt'', File ''r'')] = []"
    by (simp add: isFrame_def endsWith_def toLowerCase_def lower_char_def)
  show ?thesis
    using e empty_sequence_is_skipped[OF sequenceWorld_empty e,
        of pngHost exampleOptions "[''videos'']" None "[]"]
    by (simp add: returnIO_def)
qed

section \<open>Verification: the two-step encode\<close>

lemma extends_refl: "extends w w"
  by (simp add: extends_def)

lemma extends_trans: "extends a b \<Longrightarrow> extends b c \<Longrightarrow> extends a c"
  by (auto simp: extends_def)

lemma extends_bindIO:
  assumes "\<And>w. extends w (snd (m w))" "\<And>x w. extends w (snd (f x w))"
  shows "extends w (snd (bindIO m f w))"
proof (cases "m w")
  case (Pair r w1)
  have 1: "extends w w1" using assms(1)[of w] Pair by simp
  show ?thesis
  proof (cases r)
    case (Inl e)
    then show ?thesis using Pair 1 by (simp add: bindIO_def)
  next
    case (Inr x)
    then show ?thesis using Pair extends_trans[OF 1 assms(2)[of w1 x]] by (simp add: bindIO_def)
  qed
qed

lemma extends_forIO:
  assumes "\<And>x w. extends w (snd (f x w))"
  shows "extends w (snd (forIO xs f w))"
proof (induction xs arbitrary: w)
  case Nil
  then show ?case by (simp add: returnIO_def extends_refl)
next
  case (Cons x xs)
  show ?case unfolding forIO.simps by (rule extends_bindIO) (use assms Cons in auto)
qed

lemma extends_emit: "extends w (snd (emit ev w))"
  by (simp add: emit_def extends_def)

lemma extends_ensureDir: "extends w (snd (ensureDir d w))"
  by (simp add: ensureDir_def extends_def split: sum.splits)

lemma extends_readdir: "extends w (snd (readdir d w))"
  by (simp add: readdir_def extends_def split: option.splits node.splits)

lemma extends_listSequenceFrames: "extends w (snd (listSequenceFrames h d w))"
  unfolding listSequenceFrames_def
  by (rule extends_bindIO) (simp_all add: extends_readdir returnIO_def extends_refl)

lemma extends_spawnAndWait: "extends w (snd (spawnAndWait h failure exec args w))"
  by (simp add: spawnAndWait_def extends_def split: prod.splits)

lemma extends_encodeWithFfmpeg: "extends w (snd (encodeWithFfmpeg h job w))"
  by (simp add: encodeWithFfmpeg_def extends_def split: prod.splits)

lemma extends_convertSequenceToPng: "extends w (snd (convertSequenceToPng h d p x w))"
  unfolding convertSequenceToPng_def
  by (intro extends_bindIO extends_forIO extends_ensureDir extends_listSequenceFrames)
     (simp add: Let_def extends_spawnAndWait)

text \<open>
  Claim C3. \<open>encodeSequenceToWebm\<close> starts by one \<open>ffmpeg\<close> run over the whole sequence
  (the pattern \<open>frame_%05d.webp\<close> of the directory): it is the first thing the trace
  gains. When that run succeeds the function returns with nothing else done, so the
  fallback is never tried. When it fails with an error and no \<open>dwebp\<close> was found, the
  function throws that very error, with nothing else done; when \<open>dwebp\<close> was found, the
  fallback warning comes next.
\<close>

theorem fallback_only_after_primary_failure:
  "let job = primaryJob sequenceDir videoPath rate quality keyint;
       w1 = w\<lparr>fsys := snd (ffmpegProcess h job (fsys w)), trace := trace w @ [FfmpegRun job]\<rparr>
   in (\<exists>rest. trace (snd (encodeSequenceToWebm h sequenceDir videoPath rate quality keyint dwebpPath w)) =
               trace w @ FfmpegRun job # rest) \<and>
      (fst (ffmpegProcess h job (fsys w)) = None \<longrightarrow>
         encodeSequenceToWebm h sequenceDir videoPath rate quality keyint dwebpPath w = (Inr (), w1)) \<and>
      (\<forall>e. fst (ffmpegProcess h job (fsys w)) = Some e \<longrightarrow>
         encodeSequenceToWebm h sequenceDir videoPath rate quality keyint None w = (Inl e, w1) \<and>
         (\<forall>dwebp. \<exists>rest.
            trace (snd (encodeSequenceToWebm h sequenceDir videoPath rate quality keyint (Some dwebp) w)) =
              trace w @ [FfmpegRun job, Warn (fallbackWarning sequenceDir)] @ rest))"
proof -
  define job where "job = primaryJob sequenceDir videoPath rate quality keyint"
  define w1 where
    "w1 = w\<lparr>fsys := snd (ffmpegProcess h job (fsys w)), trace := trace w @ [FfmpegRun job]\<rparr>"
  obtain failure t where p: "ffmpegProcess h job (fsys w) = (failure, t)"
    by (cases "ffmpegProcess h job (fsys w)")
  have first: "encodeWithFfmpeg h job w = (case failure of None \<Rightarrow> Inr () | Some e \<Rightarrow> Inl e, w1)"
    using p by (simp add: encodeWithFfmpeg_def w1_def)
  have unf: "encodeSequenceToWebm h sequenceDir videoPath rate quality keyint d w =
      (case encodeWithFfmpeg h job w of
         (Inr u, w1) \<Rightarrow> (Inr (), w1)
       | (Inl error, w1) \<Rightarrow>
           (case d of
              None \<Rightarrow> (Inl error, w1)
            | Some dwebp \<Rightarrow>
                bindIO (emit (Warn (fallbackWarning sequenceDir))) (\<lambda>_.
                bindIO (convertSequenceToPng h sequenceDir (sequenceDir @ [''_png'']) dwebp) (\<lambda>_.
                encodeWithFfmpeg h
                  \<lparr>jobPattern = (sequenceDir @ [''_png'']) @ [''frame_%05d.png''], jobOutput = videoPath,
                   jobFps = rate, jobCrf = quality, jobGop = keyint\<rparr>)) w1))" for d
    unfolding encodeSequenceToWebm_def Let_def job_def primaryJob_def by (rule refl)
  have ok: "encodeSequenceToWebm h sequenceDir videoPath rate quality keyint d w = (Inr (), w1)"
    if "failure = None" for d
    using that first by (simp add: unf)
  have none: "encodeSequenceToWebm h sequenceDir videoPath rate quality keyint None w = (Inl e, w1)"
    if "failure = Some e" for e
    using that first by (simp add: unf)
  have some: "\<exists>rest. trace (snd (encodeSequenceToWebm h sequenceDir videoPath rate quality keyint
        (Some dwebp) w)) = trace w @ [FfmpegRun job, Warn (fallbackWarning sequenceDir)] @ rest"
    if f: "failure = Some e" for e dwebp
  proof -
    let ?w2 = "w1\<lparr>trace := trace w1 @ [Warn (fallbackWarning sequenceDir)]\<rparr>"
    let ?k = "bindIO (convertSequenceToPng h sequenceDir (sequenceDir @ [''_png'']) dwebp) (\<lambda>_.
                encodeWithFfmpeg h
                  \<lparr>jobPattern = (sequenceDir @ [''_png'']) @ [''frame_%05d.png''], jobOutput = videoPath,
                   jobFps = rate, jobCrf = quality, jobGop = keyint\<rparr>)"
    have e: "encodeSequenceToWebm h sequenceDir videoPath rate quality keyint (Some dwebp) w = ?k ?w2"
      using f first by (simp add: unf bindIO_def emit_def)
    have "extends ?w2 (snd (?k ?w2))"
      by (intro extends_bindIO extends_convertSequenceToPng extends_encodeWithFfmpeg)
    then obtain rest where "trace (snd (?k ?w2)) = trace ?w2 @ rest" unfolding extends_def by blast
    then show ?thesis unfolding e by (simp add: w1_def)
  qed
  have tr: "\<exists>rest. trace (snd (encodeSequenceToWebm h sequenceDir videoPath rate quality keyint dwebpPath w)) =
               trace w @ FfmpegRun job # rest"
  proof (cases failure)
    case None
    then show ?thesis using ok[of dwebpPath] by (simp add: w1_def)
  next
    case (Some e)
    show ?thesis
    proof (cases dwebpPath)
      case None
      then show ?thesis using none[OF Some] by (simp add: w1_def)
    next
      case (Some dwebp)
      then show ?thesis using some[OF \<open>failure = Some e\<close>, of dwebp] by auto
    qed
  qed
  have "fst (ffmpegProcess h job (fsys w)) = failure" using p by simp
  then show ?thesis
    unfolding Let_def job_def[symmetric] w1_def[symmetric]
    using tr ok none some by blast
qed

theorem fallback_only_after_primary_failure_witness:
  "fst (ffmpegProcess pngHost (primaryJob [''seq'', ''means''] [''videos'', ''means.webm''] 30 18 30)
         (fsys sequenceWorld)) = Some (Error ''Invalid data found when processing input'') \<and>
   encodeSequenceToWebm pngHost [''seq'', ''means''] [''videos'', ''means.webm''] 30 18 30 None
       sequenceWorld =
     (Inl (Error ''Invalid data found when processing input''),
      sequenceWorld\<lparr>trace :=
        [FfmpegRun (primaryJob [''seq'', ''means''] [''videos'', ''means.webm''] 30 18 30)]\<rparr>) \<and>
   fst (ffmpegProcess quietHost (primaryJob [''seq'', ''means''] [''videos'', ''means.webm''] 30 18 30)
         (fsys sequenceWorld)) = None \<and>
   encodeSequenceToWebm quietHost [''seq'', ''means''] [''videos'', ''means.webm''] 30 18 30
       (Some [''usr'', ''bin'', ''dwebp'']) sequenceWorld =
     (Inr (),
      sequenceWorld\<lparr>trace :=
        [FfmpegRun (primaryJob [''seq'', ''means''] [''videos'', ''means.webm''] 30 18 30)]\<rparr>)"
  using
    fallback_only_after_primary_failure[of "[''seq'', ''means'']" "[''videos'', ''means.webm'']"
      30 18 30 sequenceWorld pngHost None]
    fallback_only_after_primary_failure[of "[''seq'', ''means'']" "[''videos'', ''means.webm'']"
      30 18 30 sequenceWorld quietHost "Some [''usr'', ''bin'', ''dwebp'']"]
  by (simp add: Let_def pngHost_def quietHost_def exampleHost_def sequenceWorld_def)

section \<open>Verification: a failing converter\<close>

lemma bindIO_Inl: "m w = (Inl e, w') \<Longrightarrow> bindIO m f w = (Inl e, w')"
  by (simp add: bindIO_def)

lemma bindIO_Inr: "m w = (Inr x, w') \<Longrightarrow> bindIO m f w = f x w'"
  by (simp add: bindIO_def)

lemma foldIO_append:
  "foldIO f xs s w = (Inr s', w') \<Longrightarrow> foldIO f (xs @ ys) s w = foldIO f ys s' w'"
proof (induction xs arbitrary: s w)
  case Nil
  then show ?case by (simp add: returnIO_def)
next
  case (Cons x xs)
  obtain r w1 where step: "f s x w = (r, w1)" by (cases "f s x w")
  show ?case
  proof (cases r)
    case (Inl e)
    then show ?thesis using Cons.prems step by (simp add: bindIO_def)
  next
    case (Inr s1)
    then have "foldIO f xs s1 w1 = (Inr s', w')" using Cons.prems step by (simp add: bindIO_def)
    from Cons.IH[OF this] show ?thesis using step Inr by (simp add: bindIO_def)
  qed
qed

lemma foldIO_step_fails:
  "f s x w = (Inl e, w') \<Longrightarrow> foldIO f (x # xs) s w = (Inl e, w')"
  by (simp add: bindIO_def)

text \<open>
  Claim C6, as the code has it. In a fresh conversion that has set up its folders and
  listed its inputs, when the converter started for one input ends with an exit code other
  than 0 (the inputs before it converted), the whole run ends with exit code 1, and the
  one error it prints is \<open>splat-transform failed with exit code\<close> followed by the code:
  the message carries the exit code and no name of the input.
\<close>

theorem converter_failure_aborts_run:
  assumes "\<not> videosOnly opts"
    and "setUp opts w = (Inr (), w0)"
    and "optInput opts = Some inputDir"
    and "listPlyFiles h inputDir w0 = (Inr (before @ ply # later), w0)"
    and "foldIO (convertOne h (splatExec opts) (converterArgs opts) (sogRootOf opts)) before [] w0 =
           (Inr converted, w1)"
    and "uniqueDir (sogRootOf opts @ [basenameNoExt ply]) w1 = (Inr dir, w1)"
    and "ensureDir dir w1 = (Inr (), w2)"
    and "spawnProcess h (splatExec opts)
           (converterArgs opts @ [pathString ply, pathString (dir @ [''meta.json''])]) (fsys w2) =
           (Closed code, t)"
    and "code \<noteq> Some 0"
  shows "run h opts w =
     (1, w2\<lparr>fsys := t,
             trace := trace w2 @
               [Spawned (splatExec opts)
                  (converterArgs opts @ [pathString ply, pathString (dir @ [''meta.json''])]),
                ConsoleError (''splat-transform failed with exit code '' @ exitCodeString code)]\<rparr>)"
proof -
  let ?args = "converterArgs opts @ [pathString ply, pathString (dir @ [''meta.json''])]"
  let ?e = "Error (''splat-transform failed with exit code '' @ exitCodeString code)"
  let ?w3 = "w2\<lparr>fsys := t, trace := trace w2 @ [Spawned (splatExec opts) ?args]\<rparr>"
  let ?f = "convertOne h (splatExec opts) (converterArgs opts) (sogRootOf opts)"
  have sp: "runSplatTransform h (splatExec opts) (converterArgs opts) ply (dir @ [''meta.json'']) w2 =
      (Inl ?e, ?w3)"
    using assms(8,9) by (simp add: runSplatTransform_def spawnAndWait_def)
  have one: "?f converted ply w1 = (Inl ?e, ?w3)"
    using assms(6,7) sp by (simp add: convertOne_def Let_def bindIO_def)
  have "foldIO ?f (before @ ply # later) [] w0 = foldIO ?f (ply # later) converted w1"
    by (rule foldIO_append[OF assms(5)])
  also have "\<dots> = (Inl ?e, ?w3)" using one by (simp add: bindIO_def)
  finally have "convertInputs h opts (sogRootOf opts) w0 = (Inl ?e, ?w3)"
    using assms(3,4) by (simp add: convertInputs_def convertAll_def bindIO_def)
  then have "main h opts w = (Inl ?e, ?w3)"
    using assms(1,2) by (simp add: main_def bindIO_def Let_def)
  then show ?thesis by (simp add: run_def)
qed

theorem converter_failure_aborts_run_witness:
  "run failingHost exampleOptions bunnyWorld =
     (1, \<lparr>fsys = Dir [(''in'', Dir [(''bunny.ply'', File ''ply'')]),
                       (''out'', Dir [(''sog'', Dir [(''bunny'', Dir [])]),
                                     (''sequences'', Dir []), (''videos'', Dir [])])],
          trace = [Spawned ''splat-transform'' [''/in/bunny.ply'', ''/out/sog/bunny/meta.json''],
                   ConsoleError ''splat-transform failed with exit code 1'']\<rparr>)"
proof -
  let ?w0 = "\<lparr>fsys = Dir [(''in'', Dir [(''bunny.ply'', File ''ply'')]),
                       (''out'', Dir [(''sog'', Dir []), (''sequences'', Dir []), (''videos'', Dir [])])],
             trace = []\<rparr>"
  let ?w2 = "\<lparr>fsys = Dir [(''in'', Dir [(''bunny.ply'', File ''ply'')]),
                       (''out'', Dir [(''sog'', Dir [(''bunny'', Dir [])]),
                                     (''sequences'', Dir []), (''videos'', Dir [])])],
             trace = []\<rparr>"
  have 1: "\<not> videosOnly exampleOptions" by (simp add: exampleOptions_def)
  have 2: "setUp exampleOptions bunnyWorld = (Inr (), ?w0)" by code_simp
  have 3: "optInput exampleOptions = Some [''in'']" by (simp add: exampleOptions_def)
  have 4: "listPlyFiles failingHost [''in''] ?w0 = (Inr ([] @ [''in'', ''bunny.ply''] # []), ?w0)"
    by code_simp
  have 5: "foldIO (convertOne failingHost (splatExec exampleOptions) (converterArgs exampleOptions)
      (sogRootOf exampleOptions)) [] [] ?w0 = (Inr [], ?w0)"
    by (simp add: returnIO_def)
  have 6: "uniqueDir (sogRootOf exampleOptions @ [basenameNoExt [''in'', ''bunny.ply'']]) ?w0 =
      (Inr [''out'', ''sog'', ''bunny''], ?w0)"
    by code_simp
  have 7: "ensureDir [''out'', ''sog'', ''bunny''] ?w0 = (Inr (), ?w2)" by code_simp
  have 8: "spawnProcess failingHost (splatExec exampleOptions)
      (converterArgs exampleOptions @
        [pathString [''in'', ''bunny.ply''], pathString ([''out'', ''sog'', ''bunny''] @ [''meta.json''])])
      (fsys ?w2) = (Closed (Some 1), fsys ?w2)"
    by (simp add: failingHost_def exampleHost_def)
  have 9: "Some (1::nat) \<noteq> Some 0" by simp
  have args: "converterArgs exampleOptions @
        [pathString [''in'', ''bunny.ply''], pathString ([''out'', ''sog'', ''bunny''] @ [''meta.json''])] =
      [''/in/bunny.ply'', ''/out/sog/bunny/meta.json'']"
    by (simp add: converterArgs_def exampleOptions_def pathString_def)
  have msg: "''splat-transform failed with exit code '' @ exitCodeString (Some 1) =
      ''splat-transform failed with exit code 1''"
    by (simp add: digit_char_def)
  show ?thesis
    using converter_failure_aborts_run[OF 1 2 3 4 5 6 7 8 9]
    unfolding args msg by (simp add: exampleOptions_def)
qed

text \<open>
  The claim as stated fails: for the input \<open>bunny.ply\<close> the error the run prints
  mentions the exit code and not \<open>bunny\<close>.
\<close>

theorem converter_error_lacks_identifier:
  "fst (run failingHost exampleOptions bunnyWorld) = 1 \<and>
   errorMentions (snd (run failingHost exampleOptions bunnyWorld)) ''exit code 1'' \<and>
   \<not> errorMentions (snd (run failingHost exampleOptions bunnyWorld)) ''bunny''"
  by code_simp

section \<open>Verification: the manifest of a rebuild\<close>

lemma rebuildFrom_spec:
  assumes "\<forall>d \<in> set rest. pathExists (sogRoot @ [d, ''meta.json'']) (fsys w) \<longrightarrow>
             rewrittenAt h (fsys w) (sogRoot @ [d, ''meta.json'']) \<noteq> None"
  shows "rebuildFrom h sogRoot index rest splats w =
     (Inr (splats @ List.map_filter (splatOfDir h (fsys w) sogRoot) (List.enumerate index rest)), w)"
  using assms
proof (induction rest arbitrary: index splats)
  case Nil
  then show ?case by (simp add: returnIO_def List.map_filter_simps)
next
  case (Cons d rest)
  let ?p = "sogRoot @ [d, ''meta.json'']"
  have ih: "\<And>i s. rebuildFrom h sogRoot i rest s w =
     (Inr (s @ List.map_filter (splatOfDir h (fsys w) sogRoot) (List.enumerate i rest)), w)"
    using Cons by simp
  show ?case
  proof (cases "pathExists ?p (fsys w)")
    case False
    then have "rewrittenAt h (fsys w) ?p = None"
      by (simp add: pathExists_def rewrittenAt_def)
    then have none: "splatOfDir h (fsys w) sogRoot (index, d) = None"
      by (simp add: splatOfDir_def)
    have "rebuildFrom h sogRoot index (d # rest) splats w =
        rebuildFrom h sogRoot (index + 1) rest splats w"
      using False by (simp add: Let_def bindIO_def pathExistsIO_def)
    also have "\<dots> = (Inr (splats @ List.map_filter (splatOfDir h (fsys w) sogRoot)
        (List.enumerate (index + 1) rest)), w)"
      by (rule ih)
    finally show ?thesis using none by (simp add: List.map_filter_simps)
  next
    case True
    then obtain m where m: "rewrittenAt h (fsys w) ?p = Some m" using Cons.prems by auto
    then obtain c parsed where c: "lookup ?p (fsys w) = Some (File c)"
      "jsonParse h c = Inr parsed" "mapMetaToWebm parsed = Inr m"
      by (auto simp: rewrittenAt_def split: option.splits node.splits sum.splits)
    let ?s = "\<lparr>splatOriginal = d @ ''.ply'', splatFrame = Some index, splatMeta = m\<rparr>"
    have some: "splatOfDir h (fsys w) sogRoot (index, d) = Some ?s"
      using m by (simp add: splatOfDir_def)
    have rd: "readFile ?p w = (Inr c, w)" using c(1) by (simp add: readFile_def)
    have rw: "rewrittenMeta h c w = (Inr m, w)" using c(2,3) by (simp add: rewrittenMeta_def returnIO_def)
    have "rebuildFrom h sogRoot index (d # rest) splats w =
        rebuildFrom h sogRoot (index + 1) rest (splats @ [?s]) w"
      using True rd rw by (simp add: Let_def bindIO_def pathExistsIO_def)
    also have "\<dots> = (Inr ((splats @ [?s]) @ List.map_filter (splatOfDir h (fsys w) sogRoot)
        (List.enumerate (index + 1) rest)), w)"
      by (rule ih)
    finally show ?thesis using some by (simp add: List.map_filter_simps)
  qed
qed

lemma map_fst_enum: "map (\<lambda>e. f (fst e)) (List.enumerate n xs) = map f [n..<n + length xs]"
  by (rule nth_equalityI) (simp_all add: nth_enumerate_eq)

lemma map_snd_enum: "map (\<lambda>e. f (snd e)) (List.enumerate n xs) = map f xs"
  by (rule nth_equalityI) (simp_all add: nth_enumerate_eq)

lemma splatOfDir_frame:
  "splatOfDir h t sogRoot (i, d) = Some s \<Longrightarrow> splatFrame s = Some i \<and> splatOriginal s = d @ ''.ply''"
  by (auto simp: splatOfDir_def)

lemma map_filter_all_some:
  assumes "\<forall>x \<in> set xs. f x \<noteq> None"
  shows "List.map_filter f xs = map (\<lambda>x. the (f x)) xs"
  using assms by (induction xs) (auto simp: List.map_filter_simps)

text \<open>
  Claim C4, as the code has it. With \<open>--videos-only\<close>, when the metadata files that
  exist can be read and rewritten, the manifest has one entry for each directory under the
  \<open>sog\<close> root that holds a \<open>meta.json\<close>, and none for a directory without one. The
  entries follow the order \<open>localeCompare\<close> gives the directory names; the entry of a
  directory is named after it, with \<open>.ply\<close> appended, and its frame is the position of
  the directory among all the directories, the ones without metadata counted. When every
  directory holds metadata the frames are 0, 1, ... in that order: two directories give
  two entries with frames 0 and 1.
\<close>

theorem rebuilt_manifest_lists_directories_with_metadata:
  assumes "lookup sogRoot (fsys w) = Some (Dir entries)"
    and "names = sortBy (localeCompare h) (map fst (filter (\<lambda>entry. isDirectory (snd entry)) entries))"
    and "\<forall>d \<in> set names. pathExists (sogRoot @ [d, ''meta.json'']) (fsys w) \<longrightarrow>
           rewrittenAt h (fsys w) (sogRoot @ [d, ''meta.json'']) \<noteq> None"
  shows "rebuildSplats h sogRoot w = (Inr (manifestOfDirs h (fsys w) sogRoot names), w) \<and>
         (consistentComparator (localeCompare h) \<longrightarrow>
            sorted_wrt (\<lambda>a b. localeCompare h a b \<le> 0) names) \<and>
         (\<forall>s \<in> set (manifestOfDirs h (fsys w) sogRoot names). \<exists>i < length names.
            splatFrame s = Some i \<and> splatOriginal s = names ! i @ ''.ply'' \<and>
            pathExists (sogRoot @ [names ! i, ''meta.json'']) (fsys w)) \<and>
         ((\<forall>d \<in> set names. pathExists (sogRoot @ [d, ''meta.json'']) (fsys w)) \<longrightarrow>
            map splatFrame (manifestOfDirs h (fsys w) sogRoot names) = map Some [0..<length names] \<and>
            map splatOriginal (manifestOfDirs h (fsys w) sogRoot names) = map (\<lambda>d. d @ ''.ply'') names)"
proof (intro conjI impI)
  have ex: "pathExists sogRoot (fsys w)" using assms(1) by (simp add: pathExists_def)
  have "listSogDirs sogRoot w = (Inr (map fst (filter (\<lambda>entry. isDirectory (snd entry)) entries)), w)"
    using assms(1) by (simp add: listSogDirs_def readdir_def bindIO_def returnIO_def)
  then show "rebuildSplats h sogRoot w = (Inr (manifestOfDirs h (fsys w) sogRoot names), w)"
    using ex rebuildFrom_spec[OF assms(3), of 0 "[]"] assms(2)
    by (simp add: rebuildSplats_def bindIO_def pathExistsIO_def manifestOfDirs_def)
next
  assume "consistentComparator (localeCompare h)"
  then show "sorted_wrt (\<lambda>a b. localeCompare h a b \<le> 0) names"
    unfolding assms(2) by (rule sorted_sortBy)
next
  show "\<forall>s \<in> set (manifestOfDirs h (fsys w) sogRoot names). \<exists>i < length names.
            splatFrame s = Some i \<and> splatOriginal s = names ! i @ ''.ply'' \<and>
            pathExists (sogRoot @ [names ! i, ''meta.json'']) (fsys w)"
  proof
    fix s assume "s \<in> set (manifestOfDirs h (fsys w) sogRoot names)"
    then obtain e where e: "e \<in> set (List.enumerate 0 names)" "splatOfDir h (fsys w) sogRoot e = Some s"
      by (auto simp: manifestOfDirs_def List.map_filter_def)
    obtain i d where id: "e = (i, d)" by (cases e)
    then have i: "i < length names" "names ! i = d" using e(1) by (auto simp: in_set_enumerate_eq)
    have "rewrittenAt h (fsys w) (sogRoot @ [d, ''meta.json'']) \<noteq> None"
      using e(2) id by (auto simp: splatOfDir_def)
    then have "pathExists (sogRoot @ [d, ''meta.json'']) (fsys w)"
      by (auto simp: rewrittenAt_def pathExists_def split: option.splits)
    then show "\<exists>i < length names. splatFrame s = Some i \<and> splatOriginal s = names ! i @ ''.ply'' \<and>
            pathExists (sogRoot @ [names ! i, ''meta.json'']) (fsys w)"
      using i splatOfDir_frame[of h "fsys w" sogRoot i d s] e(2) id by auto
  qed
next
  assume all: "\<forall>d \<in> set names. pathExists (sogRoot @ [d, ''meta.json'']) (fsys w)"
  have some: "\<forall>e \<in> set (List.enumerate 0 names). splatOfDir h (fsys w) sogRoot e \<noteq> None"
  proof
    fix e assume e: "e \<in> set (List.enumerate 0 names)"
    obtain i d where "e = (i, d)" by (cases e)
    then have "snd e \<in> set names" using e by (auto simp: in_set_enumerate_eq)
    then show "splatOfDir h (fsys w) sogRoot e \<noteq> None"
      using all assms(3) by (auto simp: splatOfDir_def)
  qed
  have m: "manifestOfDirs h (fsys w) sogRoot names =
      map (\<lambda>e. the (splatOfDir h (fsys w) sogRoot e)) (List.enumerate 0 names)"
    unfolding manifestOfDirs_def by (rule map_filter_all_some[OF some])
  have fr: "\<And>e. e \<in> set (List.enumerate 0 names) \<Longrightarrow>
      splatFrame (the (splatOfDir h (fsys w) sogRoot e)) = Some (fst e) \<and>
      splatOriginal (the (splatOfDir h (fsys w) sogRoot e)) = snd e @ ''.ply''"
    using some splatOfDir_frame by (metis option.collapse prod.collapse)
  have "map splatFrame (manifestOfDirs h (fsys w) sogRoot names) =
      map (\<lambda>e. Some (fst e)) (List.enumerate 0 names)"
    unfolding m using fr by (simp add: map_eq_conv)
  also have "\<dots> = map Some [0..<length names]"
    using map_fst_enum[of Some 0 names] by simp
  finally show "map splatFrame (manifestOfDirs h (fsys w) sogRoot names) = map Some [0..<length names]" .
  have "map splatOriginal (manifestOfDirs h (fsys w) sogRoot names) =
      map (\<lambda>e. snd e @ ''.ply'') (List.enumerate 0 names)"
    unfolding m using fr by (simp add: map_eq_conv)
  also have "\<dots> = map (\<lambda>d. d @ ''.ply'') names"
    by (rule map_snd_enum)
  finally show "map splatOriginal (manifestOfDirs h (fsys w) sogRoot names) = map (\<lambda>d. d @ ''.ply'') names" .
qed

lemma quietHost_compare: "localeCompare quietHost = compareCodeUnits"
  by (simp add: quietHost_def exampleHost_def)

theorem rebuilt_manifest_lists_directories_with_metadata_witness:
  "rebuildSplats quietHost [''out'', ''sog''] rebuildWorld2 =
     (Inr [\<lparr>splatOriginal = ''objectA.ply'', splatFrame = Some 0, splatMeta = JObj []\<rparr>,
           \<lparr>splatOriginal = ''objectB.ply'', splatFrame = Some 1,
            splatMeta = JObj [(''means'', JObj [(''files'', JArr [JStr ''means_l.webm''])])]\<rparr>],
      rebuildWorld2) \<and>
   sorted_wrt (\<lambda>a b. localeCompare quietHost a b \<le> 0) [''objectA'', ''objectB'']"
proof -
  have d: "lookup [''out'', ''sog''] (fsys rebuildWorld2) =
      Some (Dir [(''objectB'', Dir [(''meta.json'', File ''{means}'')]),
                 (''objectA'', Dir [(''meta.json'', File ''{}'')])])"
    by (simp add: rebuildWorld2_def)
  have n: "[''objectA'', ''objectB''] = sortBy (localeCompare quietHost)
      (map fst (filter (\<lambda>entry. isDirectory (snd entry))
         [(''objectB'', Dir [(''meta.json'', File ''{means}'')]),
          (''objectA'', Dir [(''meta.json'', File ''{}'')])]))"
    by code_simp
  have r: "\<forall>d \<in> set [''objectA'', ''objectB''].
      pathExists ([''out'', ''sog''] @ [d, ''meta.json'']) (fsys rebuildWorld2) \<longrightarrow>
      rewrittenAt quietHost (fsys rebuildWorld2) ([''out'', ''sog''] @ [d, ''meta.json'']) \<noteq> None"
    by code_simp
  have m: "manifestOfDirs quietHost (fsys rebuildWorld2) [''out'', ''sog''] [''objectA'', ''objectB''] =
      [\<lparr>splatOriginal = ''objectA.ply'', splatFrame = Some 0, splatMeta = JObj []\<rparr>,
       \<lparr>splatOriginal = ''objectB.ply'', splatFrame = Some 1,
        splatMeta = JObj [(''means'', JObj [(''files'', JArr [JStr ''means_l.webm''])])]\<rparr>]"
    by code_simp
  have c: "consistentComparator (localeCompare quietHost)"
    unfolding quietHost_compare by (rule compareCodeUnits_consistent)
  show ?thesis
    using rebuilt_manifest_lists_directories_with_metadata[OF d n r] c unfolding m by blast
qed

text \<open>
  The claim as stated fails: of two object directories the one without \<open>meta.json\<close>
  gets no entry (not an entry with frame \<open>null\<close>), and the manifest has one entry, whose
  frame is 1.
\<close>

theorem rebuilt_manifest_omits_directory_without_metadata:
  "rebuildSplats quietHost [''out'', ''sog''] rebuildWorld =
     (Inr [\<lparr>splatOriginal = ''objectB.ply'', splatFrame = Some 1,
            splatMeta = JObj [(''means'', JObj [(''files'', JArr [JStr ''means_l.webm''])])]\<rparr>],
      rebuildWorld)"
  by code_simp

section \<open>Verification: the sequence builder\<close>

lemma ensureDir_trace: "ensureDir d w = (r, w') \<Longrightarrow> trace w' = trace w"
  by (auto simp: ensureDir_def split: sum.splits)

lemma copyFile_trace: "copyFile src dst w = (r, w') \<Longrightarrow> trace w' = trace w"
  by (auto simp: copyFile_def readFile_def writeFile_def bindIO_def
      split: option.splits node.splits sum.splits)

lemma placeFrame_unfold:
  "placeFrame sequenceRoot item b webpPath w =
     (case ensureDir (sequenceRoot @ [basenameNoExt webpPath]) w of
        (Inl e, w1) \<Rightarrow> (Inl e, w1)
      | (Inr u, w1) \<Rightarrow>
          (case copyFile webpPath (targetOf sequenceRoot b webpPath) w1 of
             (Inl e, w2) \<Rightarrow> (Inl e, w2)
           | (Inr u, w2) \<Rightarrow>
               (case map_of (splatFrames b) (plyName item) of
                  None \<Rightarrow>
                    (Inr \<lparr>frameCounters = AList.update (basenameNoExt webpPath)
                                             (currentIndexOf b (basenameNoExt webpPath) + 1)
                                             (frameCounters b),
                           splatFrames = AList.update (plyName item)
                                           (currentIndexOf b (basenameNoExt webpPath)) (splatFrames b)\<rparr>,
                     w2\<lparr>trace := trace w2 @
                        [FrameCopied (plyName item) webpPath (targetOf sequenceRoot b webpPath)]\<rparr>)
                | Some expected \<Rightarrow>
                    (Inr \<lparr>frameCounters = AList.update (basenameNoExt webpPath)
                                             (currentIndexOf b (basenameNoExt webpPath) + 1)
                                             (frameCounters b),
                           splatFrames = splatFrames b\<rparr>,
                     w2\<lparr>trace := trace w2 @
                        FrameCopied (plyName item) webpPath (targetOf sequenceRoot b webpPath) #
                        (if expected \<noteq> currentIndexOf b (basenameNoExt webpPath)
                         then [Warn (mismatchMessage (plyName item)
                                      (currentIndexOf b (basenameNoExt webpPath)) expected)]
                         else [])\<rparr>))))"
  unfolding placeFrame_def Let_def bindIO_def emit_def returnIO_def targetOf_def currentIndexOf_def
  by (auto split: prod.splits sum.splits option.splits)

lemma placeFrame_keeps:
  assumes "placeFrame sequenceRoot item b webpPath w = (Inr b', w')"
    and "map_of (splatFrames b) name = Some i"
  shows "map_of (splatFrames b') name = Some i"
  using assms unfolding placeFrame_unfold
  by (auto split: prod.splits sum.splits option.splits simp: update_conv')

lemma foldIO_keeps:
  assumes step: "\<And>s x w s' w'. f s x w = (Inr s', w') \<Longrightarrow> P s \<Longrightarrow> P s'"
    and "foldIO f xs s w = (Inr s', w')" "P s"
  shows "P s'"
  using assms(2,3)
proof (induction xs arbitrary: s w)
  case Nil
  then show ?case by (simp add: returnIO_def)
next
  case (Cons x xs)
  obtain r w1 where st: "f s x w = (r, w1)" by (cases "f s x w")
  then obtain s1 where r: "r = Inr s1" using Cons.prems(1) by (cases r) (auto simp: bindIO_def)
  have "foldIO f xs s1 w1 = (Inr s', w')" using Cons.prems(1) st r by (simp add: bindIO_def)
  moreover have "P s1" using step st r Cons.prems(2) by blast
  ultimately show ?case by (rule Cons.IH)
qed

lemma buildItem_keeps:
  assumes "buildItem sequenceRoot b item w = (Inr b', w')"
    and "map_of (splatFrames b) name = Some i"
  shows "map_of (splatFrames b') name = Some i"
proof -
  obtain r w1 where wk: "walkForWebp (sogDir item) w = (r, w1)" by (cases "walkForWebp (sogDir item) w")
  then obtain webps where r: "r = Inr webps"
    using assms(1) by (cases r) (auto simp: buildItem_def bindIO_def)
  have "foldIO (placeFrame sequenceRoot item) webps b w1 = (Inr b', w')"
    using assms(1) wk r by (simp add: buildItem_def bindIO_def)
  then show ?thesis
    by (rule foldIO_keeps[where P = "\<lambda>b. map_of (splatFrames b) name = Some i", rotated])
       (use assms(2) placeFrame_keeps in auto)
qed

lemma freshSplats_frames_aux:
  "foldIO (freshSplat h frames) items acc w = (Inr splats, w') \<Longrightarrow>
   map splatFrame splats = map splatFrame acc @ map (\<lambda>item. map_of frames (plyName item)) items \<and>
   map splatOriginal splats = map splatOriginal acc @ map plyName items"
proof (induction items arbitrary: acc w)
  case Nil
  then show ?case by (simp add: returnIO_def)
next
  case (Cons item items)
  obtain r w1 where st: "freshSplat h frames acc item w = (r, w1)"
    by (cases "freshSplat h frames acc item w")
  then obtain acc1 where r: "r = Inr acc1" using Cons.prems by (cases r) (auto simp: bindIO_def)
  have "\<exists>m. acc1 = acc @ [\<lparr>splatOriginal = plyName item, splatFrame = map_of frames (plyName item),
      splatMeta = m\<rparr>]"
    using st r
    by (auto simp: freshSplat_def Let_def bindIO_def returnIO_def split: prod.splits sum.splits)
  moreover have "foldIO (freshSplat h frames) items acc1 w1 = (Inr splats, w')"
    using Cons.prems st r by (simp add: bindIO_def)
  ultimately show ?case using Cons.IH[of acc1 w1] by auto
qed

lemma freshSplats_frames:
  "freshSplats h items frames w = (Inr splats, w') \<Longrightarrow>
   map splatFrame splats = map (\<lambda>item. map_of frames (plyName item)) items \<and>
   map splatOriginal splats = map plyName items"
  using freshSplats_frames_aux[of h frames items "[]" w splats w'] by (simp add: freshSplats_def)

text \<open>
  Claim C7. When an image of an object is placed while an index is already recorded for
  the object and the image gets another index, and the directory and the copy succeed, the
  step returns normally: the image is copied under the index it got, one mismatch warning
  naming the object, the index seen and the index expected is printed, and the recorded
  index stays. It still stays through the rest of the images and of the objects, whenever
  the build goes on to its end, and it is the frame of every manifest entry of that object.
\<close>

theorem mismatch_warns_and_keeps_first_index:
  assumes "map_of (splatFrames b) (plyName item) = Some expected"
    and "expected \<noteq> currentIndexOf b (basenameNoExt webpPath)"
    and "ensureDir (sequenceRoot @ [basenameNoExt webpPath]) w = (Inr (), w1)"
    and "copyFile webpPath (targetOf sequenceRoot b webpPath) w1 = (Inr (), w2)"
  shows "\<exists>b' w'. placeFrame sequenceRoot item b webpPath w = (Inr b', w') \<and>
           w' = w2\<lparr>trace := trace w @
                  [FrameCopied (plyName item) webpPath (targetOf sequenceRoot b webpPath),
                   Warn (mismatchMessage (plyName item)
                           (currentIndexOf b (basenameNoExt webpPath)) expected)]\<rparr> \<and>
           splatFrames b' = splatFrames b \<and>
           (\<forall>rest later b2 w3 b3 w4.
              foldIO (placeFrame sequenceRoot item) rest b' w' = (Inr b2, w3) \<longrightarrow>
              foldIO (buildItem sequenceRoot) later b2 w3 = (Inr b3, w4) \<longrightarrow>
              map_of (splatFrames b3) (plyName item) = Some expected \<and>
              (\<forall>h items wm splats wm'.
                 freshSplats h items (splatFrames b3) wm = (Inr splats, wm') \<longrightarrow>
                 (\<forall>k < length items. plyName (items ! k) = plyName item \<longrightarrow>
                    splatFrame (splats ! k) = Some expected)))"
proof -
  let ?idx = "currentIndexOf b (basenameNoExt webpPath)"
  let ?b' = "\<lparr>frameCounters = AList.update (basenameNoExt webpPath) (?idx + 1) (frameCounters b),
             splatFrames = splatFrames b\<rparr>"
  let ?w' = "w2\<lparr>trace := trace w @
                  [FrameCopied (plyName item) webpPath (targetOf sequenceRoot b webpPath),
                   Warn (mismatchMessage (plyName item) ?idx expected)]\<rparr>"
  have tr: "trace w2 = trace w"
    using ensureDir_trace[OF assms(3)] copyFile_trace[OF assms(4)] by simp
  have step: "placeFrame sequenceRoot item b webpPath w = (Inr ?b', ?w')"
    unfolding placeFrame_unfold using assms tr by simp
  have later: "map_of (splatFrames b3) (plyName item) = Some expected \<and>
              (\<forall>h items wm splats wm'.
                 freshSplats h items (splatFrames b3) wm = (Inr splats, wm') \<longrightarrow>
                 (\<forall>k < length items. plyName (items ! k) = plyName item \<longrightarrow>
                    splatFrame (splats ! k) = Some expected))"
    if a: "foldIO (placeFrame sequenceRoot item) rest ?b' ?w' = (Inr b2, w3)"
      and c: "foldIO (buildItem sequenceRoot) later b2 w3 = (Inr b3, w4)"
    for rest later b2 w3 b3 w4
  proof -
    have 0: "map_of (splatFrames ?b') (plyName item) = Some expected" using assms(1) by simp
    have 1: "map_of (splatFrames b2) (plyName item) = Some expected"
      by (rule foldIO_keeps[where P = "\<lambda>b. map_of (splatFrames b) (plyName item) = Some expected",
            OF _ a 0]) (rule placeFrame_keeps)
    have 2: "map_of (splatFrames b3) (plyName item) = Some expected"
      by (rule foldIO_keeps[where P = "\<lambda>b. map_of (splatFrames b) (plyName item) = Some expected",
            OF _ c 1]) (rule buildItem_keeps)
    have "splatFrame (splats ! k) = Some expected"
      if f: "freshSplats h items (splatFrames b3) wm = (Inr splats, wm')"
        and k: "k < length items" "plyName (items ! k) = plyName item"
      for h items wm splats wm' k
    proof -
      have m: "map splatFrame splats = map (\<lambda>item. map_of (splatFrames b3) (plyName item)) items"
        using freshSplats_frames[OF f] by simp
      then have "length splats = length items" using map_eq_imp_length_eq by fastforce
      then have "splatFrame (splats ! k) = map splatFrame splats ! k" using k(1) by simp
      also have "\<dots> = map_of (splatFrames b3) (plyName (items ! k))" unfolding m using k(1) by simp
      finally show ?thesis using k(2) 2 by simp
    qed
    then show ?thesis using 2 by blast
  qed
  show ?thesis using step later by (intro exI[of _ ?b'] exI[of _ ?w']) simp
qed

theorem mismatch_warns_and_keeps_first_index_witness:
  "map_of (splatFrames builderAtMismatch) (plyName itemB) = Some 1 \<and>
   currentIndexOf builderAtMismatch (basenameNoExt [''out'', ''sog'', ''B'', ''shN.webp'']) = 0 \<and>
   (\<exists>b' w'. placeFrame [''out'', ''sequences''] itemB builderAtMismatch
               [''out'', ''sog'', ''B'', ''shN.webp''] mismatchWorld = (Inr b', w') \<and>
            splatFrames b' = [(''A.ply'', 0), (''B.ply'', 1)] \<and>
            trace w' =
              [FrameCopied ''B.ply'' [''out'', ''sog'', ''B'', ''shN.webp'']
                 [''out'', ''sequences'', ''shN'', ''frame_00000.webp''],
               Warn ''Frame index mismatch for B.ply: saw 0, expected 1''])"
proof -
  let ?webp = "[''out'', ''sog'', ''B'', ''shN.webp'']"
  let ?dir = "[''out'', ''sequences''] @ [basenameNoExt ?webp]"
  let ?target = "targetOf [''out'', ''sequences''] builderAtMismatch ?webp"
  define w1 where "w1 = snd (ensureDir ?dir mismatchWorld)"
  define w2 where "w2 = snd (copyFile ?webp ?target w1)"
  have 1: "map_of (splatFrames builderAtMismatch) (plyName itemB) = Some 1" by code_simp
  have i: "currentIndexOf builderAtMismatch (basenameNoExt ?webp) = 0" by code_simp
  have 2: "1 \<noteq> currentIndexOf builderAtMismatch (basenameNoExt ?webp)" unfolding i by simp
  have "fst (ensureDir ?dir mismatchWorld) = Inr ()" by code_simp
  then have 3: "ensureDir ?dir mismatchWorld = (Inr (), w1)" by (simp add: w1_def prod_eq_iff)
  have "fst (copyFile ?webp ?target (snd (ensureDir ?dir mismatchWorld))) = Inr ()" by code_simp
  then have 4: "copyFile ?webp ?target w1 = (Inr (), w2)" by (simp add: w1_def w2_def prod_eq_iff)
  have t: "?target = [''out'', ''sequences'', ''shN'', ''frame_00000.webp'']" by code_simp
  have m: "mismatchMessage ''B.ply'' 0 (Suc 0) = ''Frame index mismatch for B.ply: saw 0, expected 1''"
    by code_simp
  have n: "plyName itemB = ''B.ply''" by (simp add: itemB_def)
  have s: "splatFrames builderAtMismatch = [(''A.ply'', 0), (''B.ply'', 1)]"
    by (simp add: builderAtMismatch_def)
  have e: "trace mismatchWorld = []" by (simp add: mismatchWorld_def convertedWorld_def)
  from mismatch_warns_and_keeps_first_index[OF 1 2 3 4]
  obtain b' w' where
    "placeFrame [''out'', ''sequences''] itemB builderAtMismatch ?webp mismatchWorld = (Inr b', w')"
    "w' = w2\<lparr>trace := trace mismatchWorld @
        [FrameCopied (plyName itemB) ?webp ?target,
         Warn (mismatchMessage (plyName itemB)
                 (currentIndexOf builderAtMismatch (basenameNoExt ?webp)) 1)]\<rparr>"
    "splatFrames b' = splatFrames builderAtMismatch"
    by blast
  then show ?thesis using 1 i m unfolding t n s e i by auto
qed

lemma foldIO_inv:
  assumes step: "\<And>s x w s' w'. f s x w = (Inr s', w') \<Longrightarrow> P s w \<Longrightarrow> P s' w'"
    and "foldIO f xs s w = (Inr s', w')" "P s w"
  shows "P s' w'"
  using assms(2,3)
proof (induction xs arbitrary: s w)
  case Nil
  then show ?case by (simp add: returnIO_def)
next
  case (Cons x xs)
  obtain r w1 where st: "f s x w = (r, w1)" by (cases "f s x w")
  then obtain s1 where r: "r = Inr s1" using Cons.prems(1) by (cases r) (auto simp: bindIO_def)
  have "foldIO f xs s1 w1 = (Inr s', w')" using Cons.prems(1) st r by (simp add: bindIO_def)
  moreover have "P s1 w1" using step st r Cons.prems(2) by blast
  ultimately show ?case by (rule Cons.IH)
qed

lemma placeFrame_trace:
  assumes "placeFrame sequenceRoot item b webpPath w = (Inr b', w')"
  shows "trace w' = trace w @
      FrameCopied (plyName item) webpPath (targetOf sequenceRoot b webpPath) #
      (case map_of (splatFrames b) (plyName item) of
         None \<Rightarrow> []
       | Some expected \<Rightarrow>
           if expected \<noteq> currentIndexOf b (basenameNoExt webpPath)
           then [Warn (mismatchMessage (plyName item) (currentIndexOf b (basenameNoExt webpPath)) expected)]
           else [])"
  using assms unfolding placeFrame_unfold
  by (auto split: prod.splits sum.splits option.splits dest!: ensureDir_trace copyFile_trace)

lemma placeFrame_splatFrames:
  assumes "placeFrame sequenceRoot item b webpPath w = (Inr b', w')"
  shows "splatFrames b' =
      (case map_of (splatFrames b) (plyName item) of
         None \<Rightarrow> AList.update (plyName item) (currentIndexOf b (basenameNoExt webpPath)) (splatFrames b)
       | Some expected \<Rightarrow> splatFrames b)"
  using assms unfolding placeFrame_unfold
  by (auto split: prod.splits sum.splits option.splits)

lemma placeFrame_recorded:
  assumes pf: "placeFrame sequenceRoot item b webpPath w = (Inr b', w')"
    and inv: "n \<le> length (trace w) \<and> framesRecorded sequenceRoot b (drop n (trace w))"
  shows "n \<le> length (trace w') \<and> framesRecorded sequenceRoot b' (drop n (trace w'))"
proof -
  let ?idx = "currentIndexOf b (basenameNoExt webpPath)"
  let ?ev = "FrameCopied (plyName item) webpPath (targetOf sequenceRoot b webpPath)"
  let ?warn = "case map_of (splatFrames b) (plyName item) of
         None \<Rightarrow> []
       | Some expected \<Rightarrow>
           if expected \<noteq> ?idx then [Warn (mismatchMessage (plyName item) ?idx expected)] else []"
  have tr: "trace w' = trace w @ ?ev # ?warn" by (rule placeFrame_trace[OF pf])
  have dr: "drop n (trace w') = drop n (trace w) @ ?ev # ?warn" using tr inv by simp
  have len: "n \<le> length (trace w')" using tr inv by simp
  have "framesRecorded sequenceRoot b' (drop n (trace w'))"
    unfolding framesRecorded_def
  proof (intro allI impI)
    fix name src dst
    assume mem: "FrameCopied name src dst \<in> set (drop n (trace w'))"
    show "\<exists>i. dst = sequenceRoot @ [basenameNoExt src, frameName i] \<and>
             (map_of (splatFrames b') name = Some i \<or>
              (\<exists>expected. Warn (mismatchMessage name i expected) \<in> set (drop n (trace w'))))"
    proof (cases "FrameCopied name src dst \<in> set (drop n (trace w))")
      case True
      then obtain i where i: "dst = sequenceRoot @ [basenameNoExt src, frameName i]"
        "map_of (splatFrames b) name = Some i \<or>
         (\<exists>expected. Warn (mismatchMessage name i expected) \<in> set (drop n (trace w)))"
        using inv unfolding framesRecorded_def by blast
      from i(2) have "map_of (splatFrames b') name = Some i \<or>
         (\<exists>expected. Warn (mismatchMessage name i expected) \<in> set (drop n (trace w')))"
      proof
        assume "map_of (splatFrames b) name = Some i"
        then show ?thesis using placeFrame_keeps[OF pf] by blast
      next
        assume "\<exists>expected. Warn (mismatchMessage name i expected) \<in> set (drop n (trace w))"
        then show ?thesis unfolding dr by auto
      qed
      then show ?thesis using i(1) by blast
    next
      case False
      then have new: "FrameCopied name src dst = ?ev"
        using mem unfolding dr by (auto split: option.splits if_splits)
      then have eq: "name = plyName item" "src = webpPath"
        "dst = sequenceRoot @ [basenameNoExt src, frameName ?idx]"
        by (simp_all add: targetOf_def)
      show ?thesis
      proof (cases "map_of (splatFrames b) (plyName item)")
        case None
        then have "map_of (splatFrames b') name = Some ?idx"
          using placeFrame_splatFrames[OF pf] eq(1) by (simp add: update_conv')
        then show ?thesis using eq(3) by blast
      next
        case (Some expected)
        show ?thesis
        proof (cases "expected = ?idx")
          case True
          then have "map_of (splatFrames b') name = Some ?idx"
            using placeFrame_splatFrames[OF pf] Some eq(1) by simp
          then show ?thesis using eq(3) by blast
        next
          case False
          then have "Warn (mismatchMessage name ?idx expected) \<in> set (drop n (trace w'))"
            unfolding dr using Some eq(1) by simp
          then show ?thesis using eq(3) by blast
        qed
      qed
    qed
  qed
  then show ?thesis using len by simp
qed

lemma buildItem_recorded:
  assumes bi: "buildItem sequenceRoot b item w = (Inr b', w')"
    and inv: "n \<le> length (trace w) \<and> framesRecorded sequenceRoot b (drop n (trace w))"
  shows "n \<le> length (trace w') \<and> framesRecorded sequenceRoot b' (drop n (trace w'))"
proof -
  obtain r w1 where wk: "walkForWebp (sogDir item) w = (r, w1)" by (cases "walkForWebp (sogDir item) w")
  then obtain webps where r: "r = Inr webps"
    using bi by (cases r) (auto simp: buildItem_def bindIO_def)
  have w1: "w1 = w" using wk by (auto simp: walkForWebp_def split: option.splits node.splits)
  have "foldIO (placeFrame sequenceRoot item) webps b w = (Inr b', w')"
    using bi wk r w1 by (simp add: buildItem_def bindIO_def)
  then show ?thesis
    by (rule foldIO_inv[where P = "\<lambda>b w. n \<le> length (trace w) \<and>
          framesRecorded sequenceRoot b (drop n (trace w))", rotated])
       (use inv placeFrame_recorded in auto)
qed

text \<open>
  Claim C1, as the code has it. In a fresh conversion whose sequence building and
  manifest assembly finish, for every processed object for which no frame-index mismatch
  warning was printed: the manifest entry at the object's position carries the object's
  name and an index, and every frame copied for the object, in whatever sequence
  directory, went to the file \<open>frame_NNNNN.webp\<close> that this index names.
\<close>

theorem manifest_frame_names_the_frame_files:
  assumes "buildSequences sequenceRoot items w = (Inr b, w1)"
    and "freshSplats h items (splatFrames b) w2 = (Inr splats, w3)"
    and "k < length items"
    and "FrameCopied (plyName (items ! k)) src dst \<in> set (drop (length (trace w)) (trace w1))"
    and "\<not> warnedFor (plyName (items ! k)) (drop (length (trace w)) (trace w1))"
  shows "\<exists>i. splatFrame (splats ! k) = Some i \<and> splatOriginal (splats ! k) = plyName (items ! k) \<and>
             dst = sequenceRoot @ [basenameNoExt src, frameName i]"
proof -
  let ?new = "drop (length (trace w)) (trace w1)"
  have "length (trace w) \<le> length (trace w1) \<and> framesRecorded sequenceRoot b ?new"
    using assms(1) unfolding buildSequences_def
    by (rule foldIO_inv[where P = "\<lambda>b w'. length (trace w) \<le> length (trace w') \<and>
          framesRecorded sequenceRoot b (drop (length (trace w)) (trace w'))", rotated])
       (use buildItem_recorded in \<open>auto simp: framesRecorded_def\<close>)
  then obtain i where i: "dst = sequenceRoot @ [basenameNoExt src, frameName i]"
    "map_of (splatFrames b) (plyName (items ! k)) = Some i \<or>
     (\<exists>expected. Warn (mismatchMessage (plyName (items ! k)) i expected) \<in> set ?new)"
    using assms(4) unfolding framesRecorded_def by blast
  then have rec: "map_of (splatFrames b) (plyName (items ! k)) = Some i"
    using assms(5) unfolding warnedFor_def by blast
  have m: "map splatFrame splats = map (\<lambda>item. map_of (splatFrames b) (plyName item)) items"
    "map splatOriginal splats = map plyName items"
    using freshSplats_frames[OF assms(2)] by simp_all
  then have len: "length splats = length items" using map_eq_imp_length_eq by fastforce
  have "splatFrame (splats ! k) = map splatFrame splats ! k" using assms(3) len by simp
  also have "\<dots> = Some i" unfolding m(1) using assms(3) rec by simp
  finally have f: "splatFrame (splats ! k) = Some i" .
  have "splatOriginal (splats ! k) = map splatOriginal splats ! k" using assms(3) len by simp
  also have "\<dots> = plyName (items ! k)" unfolding m(2) using assms(3) by simp
  finally show ?thesis using f i(1) by blast
qed

lemma itemsAB_names: "plyName ([itemA, itemB] ! 1) = ''B.ply''"
  by (simp add: itemB_def)

theorem manifest_frame_names_the_frame_files_witness:
  "fst (buildSequences [''out'', ''sequences''] [itemA, itemB] uniformWorld) =
     Inr \<lparr>frameCounters = [(''means'', 2), (''shN'', 2)],
          splatFrames = [(''A.ply'', 0), (''B.ply'', 1)]\<rparr> \<and>
   trace (snd (buildSequences [''out'', ''sequences''] [itemA, itemB] uniformWorld)) =
     [FrameCopied ''A.ply'' [''out'', ''sog'', ''A'', ''means.webp'']
        [''out'', ''sequences'', ''means'', ''frame_00000.webp''],
      FrameCopied ''A.ply'' [''out'', ''sog'', ''A'', ''shN.webp'']
        [''out'', ''sequences'', ''shN'', ''frame_00000.webp''],
      FrameCopied ''B.ply'' [''out'', ''sog'', ''B'', ''shN.webp'']
        [''out'', ''sequences'', ''shN'', ''frame_00001.webp''],
      FrameCopied ''B.ply'' [''out'', ''sog'', ''B'', ''means.webp'']
        [''out'', ''sequences'', ''means'', ''frame_00001.webp'']] \<and>
   (\<exists>i. splatFrame (\<lparr>splatOriginal = ''B.ply'', splatFrame = Some 1, splatMeta = JObj []\<rparr>) = Some i \<and>
        [''out'', ''sequences'', ''means'', ''frame_00001.webp''] =
          [''out'', ''sequences''] @ [basenameNoExt [''out'', ''sog'', ''B'', ''means.webp''], frameName i])"
proof -
  let ?run = "buildSequences [''out'', ''sequences''] [itemA, itemB] uniformWorld"
  let ?b = "\<lparr>frameCounters = [(''means'', 2), (''shN'', 2)],
            splatFrames = [(''A.ply'', 0), (''B.ply'', 1)]\<rparr>"
  let ?splats = "[\<lparr>splatOriginal = ''A.ply'', splatFrame = Some 0, splatMeta = JObj []\<rparr>,
                  \<lparr>splatOriginal = ''B.ply'', splatFrame = Some 1, splatMeta = JObj []\<rparr>]"
  have b: "fst ?run = Inr ?b" by code_simp
  have tr: "trace (snd ?run) =
     [FrameCopied ''A.ply'' [''out'', ''sog'', ''A'', ''means.webp'']
        [''out'', ''sequences'', ''means'', ''frame_00000.webp''],
      FrameCopied ''A.ply'' [''out'', ''sog'', ''A'', ''shN.webp'']
        [''out'', ''sequences'', ''shN'', ''frame_00000.webp''],
      FrameCopied ''B.ply'' [''out'', ''sog'', ''B'', ''shN.webp'']
        [''out'', ''sequences'', ''shN'', ''frame_00001.webp''],
      FrameCopied ''B.ply'' [''out'', ''sog'', ''B'', ''means.webp'']
        [''out'', ''sequences'', ''means'', ''frame_00001.webp'']]"
    by code_simp
  have 1: "?run = (Inr ?b, snd ?run)" using b by (simp add: prod_eq_iff)
  have "fst (freshSplats quietHost [itemA, itemB] (splatFrames ?b) (snd ?run)) = Inr ?splats"
    by code_simp
  then have 2: "freshSplats quietHost [itemA, itemB] (splatFrames ?b) (snd ?run) =
      (Inr ?splats, snd (freshSplats quietHost [itemA, itemB] (splatFrames ?b) (snd ?run)))"
    by (simp add: prod_eq_iff)
  have 3: "(1::nat) < length [itemA, itemB]" by simp
  have e: "trace uniformWorld = []" by (simp add: uniformWorld_def convertedWorld_def)
  have 4: "FrameCopied (plyName ([itemA, itemB] ! 1)) [''out'', ''sog'', ''B'', ''means.webp'']
        [''out'', ''sequences'', ''means'', ''frame_00001.webp'']
      \<in> set (drop (length (trace uniformWorld)) (trace (snd ?run)))"
    unfolding tr e itemsAB_names by simp
  have 5: "\<not> warnedFor (plyName ([itemA, itemB] ! 1))
      (drop (length (trace uniformWorld)) (trace (snd ?run)))"
    unfolding tr e warnedFor_def by simp
  from manifest_frame_names_the_frame_files[OF 1 2 3 4 5]
  show ?thesis using b tr by simp
qed

text \<open>
  The claim as stated fails when the objects do not carry the same attributes: \<open>A\<close> has
  \<open>means\<close> only and \<open>B\<close> has \<open>means\<close> and \<open>shN\<close>. The manifest gives \<open>B\<close> the frame 1,
  and the \<open>shN\<close> image of \<open>B\<close> is \<open>frame_00000.webp\<close>; the builder prints the mismatch
  warning and goes on.
\<close>

theorem manifest_frame_differs_from_frame_file:
  "fst (buildSequences [''out'', ''sequences''] [itemA, itemB] mismatchWorld) =
     Inr \<lparr>frameCounters = [(''means'', 2), (''shN'', 1)],
          splatFrames = [(''A.ply'', 0), (''B.ply'', 1)]\<rparr> \<and>
   trace (snd (buildSequences [''out'', ''sequences''] [itemA, itemB] mismatchWorld)) =
     [FrameCopied ''A.ply'' [''out'', ''sog'', ''A'', ''means.webp'']
        [''out'', ''sequences'', ''means'', ''frame_00000.webp''],
      FrameCopied ''B.ply'' [''out'', ''sog'', ''B'', ''means.webp'']
        [''out'', ''sequences'', ''means'', ''frame_00001.webp''],
      FrameCopied ''B.ply'' [''out'', ''sog'', ''B'', ''shN.webp'']
        [''out'', ''sequences'', ''shN'', ''frame_00000.webp''],
      Warn ''Frame index mismatch for B.ply: saw 0, expected 1''] \<and>
   fst (freshSplats quietHost [itemA, itemB] [(''A.ply'', 0), (''B.ply'', 1)]
          (snd (buildSequences [''out'', ''sequences''] [itemA, itemB] mismatchWorld))) =
     Inr [\<lparr>splatOriginal = ''A.ply'', splatFrame = Some 0, splatMeta = JObj []\<rparr>,
          \<lparr>splatOriginal = ''B.ply'', splatFrame = Some 1, splatMeta = JObj []\<rparr>]"
  by code_simp

lemma lookup_nonempty_empty_dir: "p \<noteq> [] \<Longrightarrow> lookup p (Dir []) = None"
  by (cases p) simp_all

lemma diverge_nonempty: "diverge d q \<Longrightarrow> d \<noteq> [] \<and> q \<noteq> []"
  by (cases d; cases q) simp_all

lemma lookup_mkdirp_diverge:
  "diverge d q \<Longrightarrow> mkdirp q t = Inr t' \<Longrightarrow> lookup d t' = lookup d t"
proof (induction d q arbitrary: t t' rule: diverge.induct)
  case (1 a p b q)
  obtain es where t: "t = Dir es" using "1.prems"(2) by (cases t) auto
  show ?case
  proof (cases "a = b")
    case False
    then show ?thesis using "1.prems"(2) t
      by (auto split: option.splits sum.splits simp: update_conv')
  next
    case True
    then have dv: "diverge p q" using "1.prems"(1) by simp
    show ?thesis
    proof (cases "map_of es b")
      case None
      then obtain m where m: "mkdirp q (Dir []) = Inr m" "t' = Dir (AList.update b m es)"
        using "1.prems"(2) t by (auto split: sum.splits)
      have "lookup p m = lookup p (Dir [])" using "1.IH"[OF True dv m(1)] .
      also have "\<dots> = None" using diverge_nonempty[OF dv] by (simp add: lookup_nonempty_empty_dir)
      finally show ?thesis using t m(2) None True by (simp add: update_conv')
    next
      case (Some m0)
      then obtain m where m: "mkdirp q m0 = Inr m" "t' = Dir (AList.update b m es)"
        using "1.prems"(2) t by (auto split: sum.splits)
      have "lookup p m = lookup p m0" using "1.IH"[OF True dv m(1)] .
      then show ?thesis using t m(2) Some True by (simp add: update_conv')
    qed
  qed
qed simp_all

lemma lookup_putNode_diverge:
  "diverge d q \<Longrightarrow> putNode q n t = Some t' \<Longrightarrow> lookup d t' = lookup d t"
proof (induction d q arbitrary: t t' rule: diverge.induct)
  case (1 a p b q)
  obtain es where t: "t = Dir es" using "1.prems"(2) by (cases t; cases q) auto
  show ?case
  proof (cases "a = b")
    case False
    then show ?thesis using "1.prems"(2) t
      by (cases q) (auto split: option.splits simp: update_conv')
  next
    case True
    then have dv: "diverge p q" using "1.prems"(1) by simp
    then obtain c q' where q: "q = c # q'" using diverge_nonempty[OF dv] by (cases q) auto
    obtain m0 m where m: "map_of es b = Some m0" "putNode q n m0 = Some m"
      "t' = Dir (AList.update b m es)"
      using "1.prems"(2) t q by (auto split: option.splits)
    have "lookup p m = lookup p m0" using "1.IH"[OF True dv m(2)] .
    then show ?thesis using t m(1,3) True by (simp add: update_conv')
  qed
qed simp_all

lemma diverge_append: "diverge d q \<Longrightarrow> diverge d (q @ r)"
  by (induction d q rule: diverge.induct) auto

lemma ensureDir_diverge:
  "diverge d q \<Longrightarrow> ensureDir q w = (r, w') \<Longrightarrow> lookup d (fsys w') = lookup d (fsys w)"
  by (auto simp: ensureDir_def split: sum.splits dest: lookup_mkdirp_diverge)

lemma copyFile_diverge:
  "diverge d q \<Longrightarrow> copyFile src q w = (r, w') \<Longrightarrow> lookup d (fsys w') = lookup d (fsys w)"
  by (auto simp: copyFile_def readFile_def writeFile_def bindIO_def
      split: option.splits node.splits sum.splits dest: lookup_putNode_diverge)

lemma placeFrame_diverge:
  assumes "diverge d sequenceRoot" "placeFrame sequenceRoot item b webpPath w = (r, w')"
  shows "lookup d (fsys w') = lookup d (fsys w)"
proof -
  have 1: "diverge d (sequenceRoot @ [basenameNoExt webpPath])"
    by (rule diverge_append[OF assms(1)])
  have 2: "diverge d (targetOf sequenceRoot b webpPath)"
    using diverge_append[OF assms(1), of "[basenameNoExt webpPath,
      frameName (currentIndexOf b (basenameNoExt webpPath))]"] by (simp add: targetOf_def)
  show ?thesis using assms(2) unfolding placeFrame_unfold
    by (auto split: prod.splits sum.splits option.splits
        dest!: ensureDir_diverge[OF 1] copyFile_diverge[OF 2])
qed

lemma placeFrame_counters:
  assumes "placeFrame sequenceRoot item b webpPath w = (Inr b', w')"
  shows "currentIndexOf b' s =
     (if s = basenameNoExt webpPath then Suc (currentIndexOf b s) else currentIndexOf b s)"
  using assms unfolding placeFrame_unfold
  by (auto split: prod.splits sum.splits option.splits simp: currentIndexOf_def update_conv')

lemma foldIO_Cons_Inr:
  assumes "foldIO f (x # xs) s w = (Inr s', w')"
  obtains s1 w1 where "f s x w = (Inr s1, w1)" "foldIO f xs s1 w1 = (Inr s', w')"
proof -
  obtain r w1 where st: "f s x w = (r, w1)" by (cases "f s x w")
  then obtain s1 where r: "r = Inr s1" using assms by (cases r) (auto simp: bindIO_def)
  have "foldIO f xs s1 w1 = (Inr s', w')" using assms st r by (simp add: bindIO_def)
  then show ?thesis using that st r by blast
qed

lemma placeFrames_uniform:
  assumes "foldIO (placeFrame sequenceRoot item) ws b w = (Inr b', w')"
    and "distinct (map basenameNoExt ws)"
    and "\<forall>s \<in> set (map basenameNoExt ws). currentIndexOf b s = k"
    and "map_of (splatFrames b) (plyName item) = None \<or>
         map_of (splatFrames b) (plyName item) = Some k"
  shows "(\<forall>s. currentIndexOf b' s =
            (if s \<in> set (map basenameNoExt ws) then Suc k else currentIndexOf b s)) \<and>
         (\<forall>name. map_of (splatFrames b') name =
            (if name = plyName item \<and> ws \<noteq> [] then Some k else map_of (splatFrames b) name)) \<and>
         (\<exists>new. trace w' = trace w @ new \<and>
            (\<forall>ev \<in> set new. \<exists>src.
               ev = FrameCopied (plyName item) src (sequenceRoot @ [basenameNoExt src, frameName k]))) \<and>
         (\<forall>d. diverge d sequenceRoot \<longrightarrow> lookup d (fsys w') = lookup d (fsys w))"
  using assms
proof (induction ws arbitrary: b w)
  case Nil
  then show ?case by (auto simp: returnIO_def)
next
  case (Cons x xs)
  from Cons.prems(1) obtain b1 w1 where
    st: "placeFrame sequenceRoot item b x w = (Inr b1, w1)"
    and rest: "foldIO (placeFrame sequenceRoot item) xs b1 w1 = (Inr b', w')"
    by (rule foldIO_Cons_Inr)
  have idx: "currentIndexOf b (basenameNoExt x) = k" using Cons.prems(3) by simp
  have c1: "\<And>s. currentIndexOf b1 s =
      (if s = basenameNoExt x then Suc k else currentIndexOf b s)"
    using placeFrame_counters[OF st] idx by auto
  have sf1: "\<And>name. map_of (splatFrames b1) name =
      (if name = plyName item then Some k else map_of (splatFrames b) name)"
    using placeFrame_splatFrames[OF st] Cons.prems(4) idx by (auto simp: update_conv')
  have tr1: "trace w1 = trace w @
      [FrameCopied (plyName item) x (sequenceRoot @ [basenameNoExt x, frameName k])]"
    using placeFrame_trace[OF st] Cons.prems(4) idx by (auto simp: targetOf_def)
  have fs1: "\<And>d. diverge d sequenceRoot \<Longrightarrow> lookup d (fsys w1) = lookup d (fsys w)"
    using placeFrame_diverge[OF _ st] by blast
  have d: "distinct (map basenameNoExt xs)" using Cons.prems(2) by simp
  have k: "\<forall>s \<in> set (map basenameNoExt xs). currentIndexOf b1 s = k"
  proof
    fix s assume s: "s \<in> set (map basenameNoExt xs)"
    have "basenameNoExt x \<notin> set (map basenameNoExt xs)" using Cons.prems(2) by simp
    then have "s \<noteq> basenameNoExt x" using s by blast
    moreover have "currentIndexOf b s = k" using Cons.prems(3) s by auto
    ultimately show "currentIndexOf b1 s = k" using c1 by simp
  qed
  have s: "map_of (splatFrames b1) (plyName item) = None \<or>
      map_of (splatFrames b1) (plyName item) = Some k" using sf1 by simp
  note ih = Cons.IH[OF rest d k s]
  have A: "\<forall>s. currentIndexOf b' s =
            (if s \<in> set (map basenameNoExt (x # xs)) then Suc k else currentIndexOf b s)"
    using ih c1 by auto
  have B: "\<forall>name. map_of (splatFrames b') name =
            (if name = plyName item \<and> x # xs \<noteq> [] then Some k else map_of (splatFrames b) name)"
    using ih sf1 by auto
  from ih obtain new where new: "trace w' = trace w1 @ new"
    "\<forall>ev \<in> set new. \<exists>src.
       ev = FrameCopied (plyName item) src (sequenceRoot @ [basenameNoExt src, frameName k])"
    by blast
  have C: "\<exists>new. trace w' = trace w @ new \<and>
            (\<forall>ev \<in> set new. \<exists>src.
               ev = FrameCopied (plyName item) src (sequenceRoot @ [basenameNoExt src, frameName k]))"
    using new tr1
    by (intro exI[of _ "FrameCopied (plyName item) x (sequenceRoot @ [basenameNoExt x, frameName k]) # new"])
       auto
  have D: "\<forall>d. diverge d sequenceRoot \<longrightarrow> lookup d (fsys w') = lookup d (fsys w)"
    using ih fs1 by auto
  show ?case using A B C D by blast
qed

lemma buildItem_as_fold:
  assumes "buildItem sequenceRoot b item w = (Inr b', w')"
  obtains es where "lookup (sogDir item) (fsys w) = Some (Dir es)"
    "foldIO (placeFrame sequenceRoot item) (walkNode (sogDir item) (Dir es)) b w = (Inr b', w')"
proof -
  obtain r w1 where wk: "walkForWebp (sogDir item) w = (r, w1)" by (cases "walkForWebp (sogDir item) w")
  then obtain webps where r: "r = Inr webps"
    using assms by (cases r) (auto simp: buildItem_def bindIO_def)
  obtain es where es: "lookup (sogDir item) (fsys w) = Some (Dir es)"
    "webps = walkNode (sogDir item) (Dir es)" "w1 = w"
    using wk r by (auto simp: walkForWebp_def split: option.splits node.splits)
  have "foldIO (placeFrame sequenceRoot item) webps b w = (Inr b', w')"
    using assms wk r es(3) by (simp add: buildItem_def bindIO_def)
  then show ?thesis using that es by blast
qed

lemma sequenceNamesOf_cong:
  "lookup (sogDir item) t' = lookup (sogDir item) t \<Longrightarrow> sequenceNamesOf t' item = sequenceNamesOf t item"
  by (simp add: sequenceNamesOf_def)

lemma buildItems_uniform:
  assumes "foldIO (buildItem sequenceRoot) items b w = (Inr b', w')"
    and "distinct (map plyName items)"
    and "\<forall>item \<in> set items. diverge (sogDir item) sequenceRoot"
    and "\<forall>item \<in> set items. \<exists>names.
           sequenceNamesOf (fsys w) item = Some names \<and> distinct names \<and> set names = attributes"
    and "attributes \<noteq> {}"
    and "\<forall>s \<in> attributes. currentIndexOf b s = k"
    and "\<forall>item \<in> set items. map_of (splatFrames b) (plyName item) = None"
  shows "(\<forall>j < length items. map_of (splatFrames b') (plyName (items ! j)) = Some (k + j)) \<and>
         (\<exists>new. trace w' = trace w @ new \<and>
            (\<forall>ev \<in> set new. \<exists>j < length items. \<exists>src.
               ev = FrameCopied (plyName (items ! j)) src
                      (sequenceRoot @ [basenameNoExt src, frameName (k + j)])))"
  using assms(1,2,3,4,6,7)
proof (induction items arbitrary: b w k)
  case Nil
  then show ?case by (simp add: returnIO_def)
next
  case (Cons item items)
  from Cons.prems(1) obtain b1 w1 where
    st: "buildItem sequenceRoot b item w = (Inr b1, w1)"
    and rest: "foldIO (buildItem sequenceRoot) items b1 w1 = (Inr b', w')"
    by (rule foldIO_Cons_Inr)
  from st obtain es where es: "lookup (sogDir item) (fsys w) = Some (Dir es)"
    and fold: "foldIO (placeFrame sequenceRoot item) (walkNode (sogDir item) (Dir es)) b w = (Inr b1, w1)"
    by (rule buildItem_as_fold)
  let ?ws = "walkNode (sogDir item) (Dir es)"
  have names: "distinct (map basenameNoExt ?ws)" "set (map basenameNoExt ?ws) = attributes"
    using Cons.prems(4) es by (auto simp: sequenceNamesOf_def)
  have ne: "?ws \<noteq> []"
  proof
    assume "?ws = []"
    from arg_cong[OF this, of "\<lambda>l. set (map basenameNoExt l)"] names(2) assms(5)
    show False by (simp del: walkNode.simps)
  qed
  have idx: "\<forall>s \<in> set (map basenameNoExt ?ws). currentIndexOf b s = k"
    using names(2) Cons.prems(5) by simp
  have none: "map_of (splatFrames b) (plyName item) = None \<or>
      map_of (splatFrames b) (plyName item) = Some k" using Cons.prems(6) by simp
  note inner = placeFrames_uniform[OF fold names(1) idx none]
  have c1: "\<forall>s \<in> attributes. currentIndexOf b1 s = Suc k" using inner names(2) by simp
  have sf1: "\<And>name. map_of (splatFrames b1) name =
      (if name = plyName item then Some k else map_of (splatFrames b) name)"
    using inner ne by simp
  have fs1: "\<And>d. diverge d sequenceRoot \<Longrightarrow> lookup d (fsys w1) = lookup d (fsys w)"
    using inner by blast
  from inner obtain new1 where new1: "trace w1 = trace w @ new1"
    "\<forall>ev \<in> set new1. \<exists>src.
       ev = FrameCopied (plyName item) src (sequenceRoot @ [basenameNoExt src, frameName k])"
    by blast
  have p2: "distinct (map plyName items)" using Cons.prems(2) by simp
  have p3: "\<forall>it \<in> set items. diverge (sogDir it) sequenceRoot" using Cons.prems(3) by simp
  have p4: "\<forall>it \<in> set items. \<exists>names.
      sequenceNamesOf (fsys w1) it = Some names \<and> distinct names \<and> set names = attributes"
  proof
    fix it assume it: "it \<in> set items"
    then have "lookup (sogDir it) (fsys w1) = lookup (sogDir it) (fsys w)" using fs1 p3 by blast
    then have "sequenceNamesOf (fsys w1) it = sequenceNamesOf (fsys w) it"
      by (rule sequenceNamesOf_cong)
    then show "\<exists>names. sequenceNamesOf (fsys w1) it = Some names \<and> distinct names \<and>
        set names = attributes" using Cons.prems(4) it by simp
  qed
  have p6: "\<forall>it \<in> set items. map_of (splatFrames b1) (plyName it) = None"
  proof
    fix it assume it: "it \<in> set items"
    have "plyName item \<notin> plyName ` set items" using Cons.prems(2) by simp
    then have "plyName it \<noteq> plyName item" using it by (metis imageI)
    then show "map_of (splatFrames b1) (plyName it) = None" using sf1 Cons.prems(6) it by simp
  qed
  note ih = Cons.IH[OF rest p2 p3 p4 c1 p6]
  have first: "map_of (splatFrames b') (plyName item) = Some k"
    by (rule foldIO_keeps[where P = "\<lambda>b. map_of (splatFrames b) (plyName item) = Some k", OF _ rest])
       (use buildItem_keeps sf1 in auto)
  have A: "\<forall>j < length (item # items).
      map_of (splatFrames b') (plyName ((item # items) ! j)) = Some (k + j)"
  proof (intro allI impI)
    fix j assume j: "j < length (item # items)"
    show "map_of (splatFrames b') (plyName ((item # items) ! j)) = Some (k + j)"
    proof (cases j)
      case 0
      then show ?thesis using first by simp
    next
      case (Suc i)
      then show ?thesis using ih j by simp
    qed
  qed
  from ih obtain new where new: "trace w' = trace w1 @ new"
    "\<forall>ev \<in> set new. \<exists>j < length items. \<exists>src.
       ev = FrameCopied (plyName (items ! j)) src
              (sequenceRoot @ [basenameNoExt src, frameName (Suc k + j)])"
    by blast
  have B: "\<forall>ev \<in> set (new1 @ new). \<exists>j < length (item # items). \<exists>src.
       ev = FrameCopied (plyName ((item # items) ! j)) src
              (sequenceRoot @ [basenameNoExt src, frameName (k + j)])"
  proof
    fix ev assume "ev \<in> set (new1 @ new)"
    then consider "ev \<in> set new1" | "ev \<in> set new" by auto
    then show "\<exists>j < length (item # items). \<exists>src.
       ev = FrameCopied (plyName ((item # items) ! j)) src
              (sequenceRoot @ [basenameNoExt src, frameName (k + j)])"
    proof cases
      case 1
      then obtain src where "ev = FrameCopied (plyName item) src
          (sequenceRoot @ [basenameNoExt src, frameName k])" using new1(2) by blast
      then show ?thesis by (intro exI[of _ 0]) auto
    next
      case 2
      then obtain j src where "j < length items" "ev = FrameCopied (plyName (items ! j)) src
          (sequenceRoot @ [basenameNoExt src, frameName (Suc k + j)])" using new(2) by blast
      then show ?thesis by (intro exI[of _ "Suc j"]) auto
    qed
  qed
  have "trace w' = trace w @ (new1 @ new)" using new(1) new1(1) by simp
  then show ?case using A B by blast
qed

text \<open>
  Claim C2, as the code has it. In a fresh conversion whose sequence building finishes,
  when every processed object yields the same non-empty set of sequence names, each name
  once (the objects bear different names and their directories lie apart from the sequence
  root, as \<open>main\<close> makes them): the indices recorded for the objects, in catalog order,
  are 0, 1, ..., N - 1, and every frame copied is a frame of some object \<open>j\<close> that went to
  the file index \<open>j\<close> names, so one object has one index in all its sequences.
\<close>

theorem uniform_objects_get_consecutive_indices:
  assumes "buildSequences sequenceRoot items w = (Inr b, w1)"
    and "distinct (map plyName items)"
    and "\<forall>item \<in> set items. diverge (sogDir item) sequenceRoot"
    and "\<forall>item \<in> set items. \<exists>names.
           sequenceNamesOf (fsys w) item = Some names \<and> distinct names \<and> set names = attributes"
    and "attributes \<noteq> {}"
  shows "map (\<lambda>item. map_of (splatFrames b) (plyName item)) items = map Some [0..<length items] \<and>
         (\<forall>ev \<in> set (drop (length (trace w)) (trace w1)). \<exists>j < length items. \<exists>src.
            ev = FrameCopied (plyName (items ! j)) src
                   (sequenceRoot @ [basenameNoExt src, frameName j]))"
proof -
  let ?b0 = "\<lparr>frameCounters = [], splatFrames = []\<rparr>"
  have f: "foldIO (buildItem sequenceRoot) items ?b0 w = (Inr b, w1)"
    using assms(1) by (simp add: buildSequences_def)
  have c0: "\<forall>s \<in> attributes. currentIndexOf ?b0 s = 0" by (simp add: currentIndexOf_def)
  have s0: "\<forall>item \<in> set items. map_of (splatFrames ?b0) (plyName item) = None" by simp
  note u = buildItems_uniform[OF f assms(2,3,4,5) c0 s0]
  have "map (\<lambda>item. map_of (splatFrames b) (plyName item)) items = map Some [0..<length items]"
    by (rule nth_equalityI) (use u in auto)
  moreover from u obtain new where "trace w1 = trace w @ new"
    "\<forall>ev \<in> set new. \<exists>j < length items. \<exists>src.
       ev = FrameCopied (plyName (items ! j)) src (sequenceRoot @ [basenameNoExt src, frameName (0 + j)])"
    by blast
  then have "\<forall>ev \<in> set (drop (length (trace w)) (trace w1)). \<exists>j < length items. \<exists>src.
            ev = FrameCopied (plyName (items ! j)) src
                   (sequenceRoot @ [basenameNoExt src, frameName j])"
    by simp
  ultimately show ?thesis by blast
qed

theorem uniform_objects_get_consecutive_indices_witness:
  "sequenceNamesOf (fsys uniformWorld) itemA = Some [''means'', ''shN''] \<and>
   sequenceNamesOf (fsys uniformWorld) itemB = Some [''shN'', ''means''] \<and>
   fst (buildSequences [''out'', ''sequences''] [itemA, itemB] uniformWorld) =
     Inr \<lparr>frameCounters = [(''means'', 2), (''shN'', 2)],
          splatFrames = [(''A.ply'', 0), (''B.ply'', 1)]\<rparr> \<and>
   map (\<lambda>item. map_of [(''A.ply'', 0), (''B.ply'', 1)] (plyName item)) [itemA, itemB] =
     [Some 0, Some 1]"
proof -
  let ?run = "buildSequences [''out'', ''sequences''] [itemA, itemB] uniformWorld"
  let ?b = "\<lparr>frameCounters = [(''means'', 2), (''shN'', 2)],
            splatFrames = [(''A.ply'', 0), (''B.ply'', 1)]\<rparr>"
  have b: "fst ?run = Inr ?b" by code_simp
  have 1: "?run = (Inr ?b, snd ?run)" using b by (simp add: prod_eq_iff)
  have 2: "distinct (map plyName [itemA, itemB])" by (simp add: itemA_def itemB_def)
  have 3: "\<forall>item \<in> set [itemA, itemB]. diverge (sogDir item) [''out'', ''sequences'']"
    by (simp add: itemA_def itemB_def)
  have na: "sequenceNamesOf (fsys uniformWorld) itemA = Some [''means'', ''shN'']" by code_simp
  have nb: "sequenceNamesOf (fsys uniformWorld) itemB = Some [''shN'', ''means'']" by code_simp
  have 4: "\<forall>item \<in> set [itemA, itemB]. \<exists>names.
      sequenceNamesOf (fsys uniformWorld) item = Some names \<and> distinct names \<and>
      set names = {''means'', ''shN''}"
    using na nb by auto
  have 5: "{''means'', ''shN''} \<noteq> {}" by simp
  from uniform_objects_get_consecutive_indices[OF 1 2 3 4 5]
  have "map (\<lambda>item. map_of (splatFrames ?b) (plyName item)) [itemA, itemB] =
      map Some [0..<length [itemA, itemB]]" by blast
  then have "map (\<lambda>item. map_of [(''A.ply'', 0), (''B.ply'', 1)] (plyName item)) [itemA, itemB] =
     [Some 0, Some 1]" by (simp add: upt_rec itemA_def itemB_def)
  then show ?thesis using na nb b by blast
qed

text \<open>
  The claim as stated fails when the objects carry different attributes: with \<open>means\<close>
  in \<open>A\<close> only and \<open>shN\<close> in \<open>B\<close> only, both objects get the index 0, each from the
  counter of its own sequence, and no warning is printed.
\<close>

theorem disjoint_attributes_share_an_index:
  "fst (buildSequences [''out'', ''sequences''] [itemA, itemB] disjointWorld) =
     Inr \<lparr>frameCounters = [(''means'', 1), (''shN'', 1)],
          splatFrames = [(''A.ply'', 0), (''B.ply'', 0)]\<rparr> \<and>
   trace (snd (buildSequences [''out'', ''sequences''] [itemA, itemB] disjointWorld)) =
     [FrameCopied ''A.ply'' [''out'', ''sog'', ''A'', ''means.webp'']
        [''out'', ''sequences'', ''means'', ''frame_00000.webp''],
      FrameCopied ''B.ply'' [''out'', ''sog'', ''B'', ''shN.webp'']
        [''out'', ''sequences'', ''shN'', ''frame_00000.webp'']]"
  by code_simp

end
